theory Spec2Isabelle
  imports Main "HOL-Library.Word" "HOL-Library.Multiset"
begin

section \<open>Data model\<close>

text \<open>
  The game state is the array \<^verbatim>\<open>char gs[g_board_size * g_board_size]\<close>: one byte per
  cell, row-major, 0 for an empty cell. The C++ \<^verbatim>\<open>int\<close> is modelled by \<^typ>\<open>int\<close>;
  signed overflow is undefined in the source and no definition below relies on wrap-around.
\<close>

type_synonym board = "8 word list"

text \<open>
  An output parameter \<^verbatim>\<open>int *p\<close>: \<open>None\<close> is \<^verbatim>\<open>nullptr\<close>, \<open>Some v\<close> is a pointer
  to an \<^verbatim>\<open>int\<close> that currently holds \<open>v\<close>. \<open>store p v\<close> is
  \<^verbatim>\<open>if (p != nullptr) *p = v\<close>.
\<close>

type_synonym out_ptr = "int option"

definition store :: "out_ptr \<Rightarrow> int \<Rightarrow> out_ptr" where
  "store p v = (case p of None \<Rightarrow> None | Some _ \<Rightarrow> Some v)"

text \<open>
  \<^verbatim>\<open>struct Move { int r, c, heuristic_val, actual_score; }\<close> (fields \<open>r\<close> and \<open>c\<close>
  are named \<open>m_r\<close> and \<open>m_c\<close> here).
\<close>

record Move =
  m_r :: int
  m_c :: int
  heuristic_val :: int
  actual_score :: int

definition INT_MAX :: int where
  "INT_MAX = 2147483647"

definition INT_MIN :: int where
  "INT_MIN = - 2147483648"

definition kSearchBreadth :: int where
  "kSearchBreadth = 6"

definition kTopLayerSearchBreadth :: int where
  "kTopLayerSearchBreadth = 12"

definition kAvgBranchingFactor :: int where
  "kAvgBranchingFactor = 5"

definition kAvgMaximumDepth :: int where
  "kAvgMaximumDepth = 16"

text \<open>
  What \<^verbatim>\<open>negamax.cc\<close> takes from outside the file, as parameters of the model:
  the global board size, the evaluator (\<^verbatim>\<open>RenjuAIEval::evalMove\<close>,
  \<^verbatim>\<open>RenjuAIEval::evalState\<close> and its two thresholds), the remoteness test
  \<^verbatim>\<open>RenjuAIUtils::remoteCell\<close>, and the library sort. \<open>sortMoves\<close> is
  \<^verbatim>\<open>std::sort\<close> under \<^verbatim>\<open>Move::operator<\<close>; the order it gives to moves of equal
  rank is not specified, so no particular algorithm is fixed.

  The two single-precision computations of the file are parameters too:
  \<open>mulDecay x\<close> is \<^verbatim>\<open>(int)(x * kScoreDecayFactor)\<close> with the factor \<^verbatim>\<open>0.95f\<close>, and
  \<open>quotientBelow n d\<close> is \<^verbatim>\<open>n / (float)d < 0.2\<close>.
\<close>

record env =
  g_board_size :: int
  evalMove :: "board \<Rightarrow> int \<Rightarrow> int \<Rightarrow> int \<Rightarrow> int"
  evalState :: "board \<Rightarrow> int \<Rightarrow> int"
  remoteCell :: "board \<Rightarrow> int \<Rightarrow> int \<Rightarrow> bool"
  kRenjuAiEvalWinningScore :: int
  kRenjuAiEvalThreateningScore :: int
  sortMoves :: "Move list \<Rightarrow> Move list"
  mulDecay :: "int \<Rightarrow> int"
  quotientBelow :: "int \<Rightarrow> int \<Rightarrow> bool"

text \<open>
  Modelled from the spec: \<^verbatim>\<open>Move::operator<\<close> is declared in the header
  \<^verbatim>\<open>ai/negamax.h\<close>, which is not among the sources. The spec orders moves by
  \<open>heuristic_val\<close> descending, so \<open>a < b\<close> is \<open>heuristic_val a > heuristic_val b\<close> and
  a sorted vector has non-increasing \<open>heuristic_val\<close>. \<open>sort_spec\<close> is what the C++
  standard promises of \<^verbatim>\<open>std::sort\<close>: a permutation of its input in that order.
\<close>

definition move_le :: "Move \<Rightarrow> Move \<Rightarrow> bool" where
  "move_le a b = (heuristic_val b \<le> heuristic_val a)"

definition sort_spec :: "env \<Rightarrow> bool" where
  "sort_spec e = (\<forall>ms. mset (sortMoves e ms) = mset ms \<and> sorted_wrt move_le (sortMoves e ms))"

section \<open>Board utilities\<close>

text \<open>The array index \<^verbatim>\<open>g_board_size * r + c\<close> of cell \<open>(r, c)\<close>.\<close>

definition cell_index :: "env \<Rightarrow> int \<Rightarrow> int \<Rightarrow> nat" where
  "cell_index e r c = nat (g_board_size e * r + c)"

text \<open>
  Modelled from the spec: \<^verbatim>\<open>RenjuAIUtils::getCell\<close> and \<^verbatim>\<open>RenjuAIUtils::setCell\<close>
  are defined in \<^verbatim>\<open>ai/utils\<close>, which is not among the sources. The spec gives them as
  the primitive read and write of one cell of the board.
\<close>

definition getCell :: "env \<Rightarrow> board \<Rightarrow> int \<Rightarrow> int \<Rightarrow> 8 word" where
  "getCell e gs r c = gs ! cell_index e r c"

definition setCell :: "env \<Rightarrow> board \<Rightarrow> int \<Rightarrow> int \<Rightarrow> 8 word \<Rightarrow> board" where
  "setCell e gs r c v = gs[cell_index e r c := v]"

text \<open>The cells \<open>(r, c)\<close> with \<open>r0 \<le> r \<le> r1\<close> and \<open>c0 \<le> c \<le> c1\<close>, in the order
  of the nested loops \<^verbatim>\<open>for r ... for c ...\<close>.\<close>

definition cells :: "int \<Rightarrow> int \<Rightarrow> int \<Rightarrow> int \<Rightarrow> (int \<times> int) list" where
  "cells r0 r1 c0 c1 = concat (map (\<lambda>r. map (\<lambda>c. (r, c)) [c0..c1]) [r0..r1])"

section \<open>The candidate generator\<close>

text \<open>
  Lines 225-235: the extent of the occupied cells, from
  \<open>(INT_MAX, INT_MAX, INT_MIN, INT_MIN)\<close>, as \<open>(min_r, min_c, max_r, max_c)\<close>.
\<close>

fun extent_step :: "env \<Rightarrow> board \<Rightarrow> int \<times> int \<times> int \<times> int \<Rightarrow> int \<times> int
    \<Rightarrow> int \<times> int \<times> int \<times> int" where
  "extent_step e gs (min_r, min_c, max_r, max_c) (r, c) =
     (if gs ! cell_index e r c \<noteq> 0
      then (if r < min_r then r else min_r, if c < min_c then c else min_c,
            if r > max_r then r else max_r, if c > max_c then c else max_c)
      else (min_r, min_c, max_r, max_c))"

definition extent :: "env \<Rightarrow> board \<Rightarrow> int \<times> int \<times> int \<times> int" where
  "extent e gs =
     foldl (extent_step e gs) (INT_MAX, INT_MAX, INT_MIN, INT_MIN)
       (cells 0 (g_board_size e - 1) 0 (g_board_size e - 1))"

text \<open>Lines 237-240: the four adjustments of the extent.\<close>

fun clamp_extent :: "env \<Rightarrow> int \<times> int \<times> int \<times> int \<Rightarrow> int \<times> int \<times> int \<times> int" where
  "clamp_extent e (min_r, min_c, max_r, max_c) =
     (if min_r - 2 < 0 then 2 else min_r,
      if min_c - 2 < 0 then 2 else min_c,
      if max_r + 2 \<ge> g_board_size e then g_board_size e - 3 else max_r,
      if max_c + 2 \<ge> g_board_size e then g_board_size e - 3 else max_c)"

text \<open>Lines 243-261: the scan. The field \<open>actual_score\<close> is left unset by the source
  and is not read before it is assigned; the model puts 0 there.\<close>

fun scan_cells :: "env \<Rightarrow> int \<times> int \<times> int \<times> int \<Rightarrow> (int \<times> int) list" where
  "scan_cells e (min_r, min_c, max_r, max_c) = cells (min_r - 2) (max_r + 2) (min_c - 2) (max_c + 2)"

definition is_candidate :: "env \<Rightarrow> board \<Rightarrow> int \<times> int \<Rightarrow> bool" where
  "is_candidate e gs rc =
     (gs ! cell_index e (fst rc) (snd rc) = 0 \<and> \<not> remoteCell e gs (fst rc) (snd rc))"

definition make_move :: "env \<Rightarrow> board \<Rightarrow> int \<Rightarrow> int \<times> int \<Rightarrow> Move" where
  "make_move e gs player rc =
     \<lparr>m_r = fst rc, m_c = snd rc,
      heuristic_val = evalMove e gs (fst rc) (snd rc) player, actual_score = 0\<rparr>"

definition searchMovesOrdered :: "env \<Rightarrow> board \<Rightarrow> int \<Rightarrow> Move list" where
  "searchMovesOrdered e gs player =
     sortMoves e
       (map (make_move e gs player)
          (filter (is_candidate e gs) (scan_cells e (clamp_extent e (extent e gs)))))"

section \<open>The heuristic negamax\<close>

text \<open>What a call leaves behind: the returned score, the board, the global node
  counter and the two output cells.\<close>

record result =
  ret :: int
  gs_after :: board
  node_count :: int
  move_r_after :: out_ptr
  move_c_after :: out_ptr

text \<open>The variables the candidate loop of lines 153-198 changes.\<close>

record loop_state =
  l_gs :: board
  l_node_count :: int
  l_candidate_moves :: "Move list"
  l_max_score :: int
  l_alpha :: int
  l_move_r :: out_ptr
  l_move_c :: out_ptr

text \<open>
  The two places where the source can leave defined behaviour whatever the evaluator
  returns: the read \<^verbatim>\<open>(*moves_opponent)[0]\<close> at line 129, which no test of the size
  guards, and the negation at line 286, which overflows when the recursive call has
  returned \<^verbatim>\<open>INT_MIN\<close>.
\<close>

datatype fault = VectorIndexOutOfRange | SignedOverflow

definition opponent_of :: "int \<Rightarrow> int" where
  "opponent_of player = (if player = 1 then 2 else 1)"

text \<open>Lines 127-140: the opponent's top one or two cells, scored again for the player.\<close>

definition blocking_moves :: "env \<Rightarrow> board \<Rightarrow> int \<Rightarrow> Move list \<Rightarrow> Move list" where
  "blocking_moves e gs player moves_opponent =
     map (\<lambda>move. move\<lparr>heuristic_val := evalMove e gs (m_r move) (m_c move) player\<rparr>)
       (take 2 moves_opponent)"

text \<open>Lines 143-144; \<^verbatim>\<open>>> 1\<close> on an \<^verbatim>\<open>int\<close> is the floor of the half.\<close>

definition breadth :: "int \<Rightarrow> int \<Rightarrow> int" where
  "breadth initial_depth depth =
     (if (depth + 1) div 2 = initial_depth div 2 then kTopLayerSearchBreadth else kSearchBreadth)"

definition candidates :: "env \<Rightarrow> board \<Rightarrow> int \<Rightarrow> int \<Rightarrow> int \<Rightarrow> bool \<Rightarrow> Move list
    \<Rightarrow> Move list \<Rightarrow> Move list" where
  "candidates e gs player initial_depth depth block_opponent moves_player moves_opponent =
     (if block_opponent then blocking_moves e gs player moves_opponent else [])
     @ take (nat (breadth initial_depth depth)) moves_player"

text \<open>\<^verbatim>\<open>if (x >= 10) x *= kScoreDecayFactor\<close>, at lines 171 and 195.\<close>

definition decay :: "env \<Rightarrow> int \<Rightarrow> int" where
  "decay e x = (if x \<ge> 10 then mulDecay e x else x)"

text \<open>Lines 203-210, the body of the override. \<open>guard_b_score\<close> is line 205.\<close>

definition guard_b_score :: "int \<Rightarrow> int" where
  "guard_b_score b_score = (if b_score = 0 then 1 else b_score)"

definition override_divisor :: "int \<Rightarrow> int" where
  "override_divisor b_score = \<bar>guard_b_score b_score\<bar>"

definition override_test :: "env \<Rightarrow> int \<Rightarrow> int \<Rightarrow> bool" where
  "override_test e max_score b_score =
     quotientBelow e (max_score - guard_b_score b_score) (override_divisor b_score)"

definition blocking_override :: "env \<Rightarrow> loop_state \<Rightarrow> loop_state" where
  "blocking_override e st =
     (let blocking_move = l_candidate_moves st ! 0 in
      if override_test e (l_max_score st) (actual_score blocking_move)
      then st\<lparr>l_move_r := store (l_move_r st) (m_r blocking_move),
              l_move_c := store (l_move_c st) (m_c blocking_move),
              l_max_score := actual_score blocking_move\<rparr>
      else st)"

text \<open>Lines 202-218: the override at the root, then the return.\<close>

definition finish :: "env \<Rightarrow> int \<Rightarrow> int \<Rightarrow> bool \<Rightarrow> loop_state \<Rightarrow> result" where
  "finish e initial_depth depth block_opponent st =
     (let st' = (if depth = initial_depth \<and> block_opponent \<and> l_max_score st < 0
                 then blocking_override e st else st)
      in \<lparr>ret = l_max_score st', gs_after = l_gs st', node_count = l_node_count st',
          move_r_after = l_move_r st', move_c_after = l_move_c st'\<rparr>)"

text \<open>Lines 170-197, after the recursive call of one iteration has returned \<open>score\<close>
  and left the board \<open>gs'\<close> and the counter \<open>nodes'\<close>: the new loop state, and whether
  the loop breaks.\<close>

definition after_call :: "env \<Rightarrow> bool \<Rightarrow> int \<Rightarrow> nat \<Rightarrow> Move \<Rightarrow> loop_state \<Rightarrow> result
    \<Rightarrow> loop_state \<times> bool" where
  "after_call e enable_ab_pruning beta i move st res =
     (let score = decay e (ret res);
          a = heuristic_val move - score;
          cands = (l_candidate_moves st)[i := (l_candidate_moves st ! i)\<lparr>actual_score := a\<rparr>];
          gs' = setCell e (gs_after res) (m_r move) (m_c move) 0;
          better = (a > l_max_score st);
          max_score = (if better then a else l_max_score st);
          move_r = (if better then store (l_move_r st) (m_r move) else l_move_r st);
          move_c = (if better then store (l_move_c st) (m_c move) else l_move_c st);
          max_score_decayed = decay e max_score;
          alpha = (if max_score > l_alpha st then max_score else l_alpha st)
      in (\<lparr>l_gs = gs', l_node_count = node_count res, l_candidate_moves = cands,
           l_max_score = max_score, l_alpha = alpha, l_move_r = move_r, l_move_c = move_c\<rparr>,
          enable_ab_pruning \<and> max_score_decayed \<ge> beta))"

text \<open>
  The recursive \<^verbatim>\<open>heuristicNegamax\<close> (lines 92-219) and its candidate loop. The first
  argument bounds the depth of the call stack: \<open>None\<close> means the bound was reached.
  The board and the node counter are passed in and handed back, since the source
  changes both in place. \<open>candidate_loop\<close> runs iterations \<open>i, i + 1, ...\<close> over the
  moves still to try; \<^verbatim>\<open>auto move = (*candidate_moves)[i]\<close> is the head of that list.
\<close>

fun heuristicNegamax :: "nat \<Rightarrow> env \<Rightarrow> board \<Rightarrow> int \<Rightarrow> int \<Rightarrow> int \<Rightarrow> int \<Rightarrow> bool
      \<Rightarrow> int \<Rightarrow> int \<Rightarrow> out_ptr \<Rightarrow> out_ptr \<Rightarrow> (fault + result) option"
  and candidate_loop :: "nat \<Rightarrow> env \<Rightarrow> int \<Rightarrow> int \<Rightarrow> int \<Rightarrow> bool \<Rightarrow> int \<Rightarrow> nat
      \<Rightarrow> Move list \<Rightarrow> loop_state \<Rightarrow> (fault + loop_state) option" where
  "heuristicNegamax 0 e gs nodes player initial_depth depth enable_ab_pruning alpha beta
       move_r move_c = None"
| "heuristicNegamax (Suc fuel) e gs nodes player initial_depth depth enable_ab_pruning alpha beta
       move_r move_c =
     (if depth = 0
      then Some (Inr \<lparr>ret = 0, gs_after = gs, node_count = nodes,
                      move_r_after = move_r, move_c_after = move_c\<rparr>)
      else
        let nodes1 = nodes + 1;
            opponent = opponent_of player;
            moves_player = searchMovesOrdered e gs player;
            moves_opponent = searchMovesOrdered e gs opponent
        in
        if length moves_player = 0
        then Some (Inr \<lparr>ret = 0, gs_after = gs, node_count = nodes1,
                        move_r_after = move_r, move_c_after = move_c\<rparr>)
        else if length moves_player = 1
                \<or> heuristic_val (moves_player ! 0) \<ge> kRenjuAiEvalWinningScore e
        then
          let move = moves_player ! 0
          in Some (Inr \<lparr>ret = heuristic_val move, gs_after = gs, node_count = nodes1,
                        move_r_after = store move_r (m_r move),
                        move_c_after = store move_c (m_c move)\<rparr>)
        else if length moves_opponent = 0
        then Some (Inl VectorIndexOutOfRange)
        else
          let block_opponent =
                (heuristic_val (moves_opponent ! 0) \<ge> kRenjuAiEvalThreateningScore e);
              candidate_moves = candidates e gs player initial_depth depth block_opponent
                                  moves_player moves_opponent
          in
          (case candidate_loop fuel e player initial_depth depth enable_ab_pruning beta 0
                  candidate_moves
                  \<lparr>l_gs = gs, l_node_count = nodes1, l_candidate_moves = candidate_moves,
                   l_max_score = INT_MIN, l_alpha = alpha,
                   l_move_r = move_r, l_move_c = move_c\<rparr> of
             None \<Rightarrow> None
           | Some (Inl f) \<Rightarrow> Some (Inl f)
           | Some (Inr st) \<Rightarrow> Some (Inr (finish e initial_depth depth block_opponent st))))"
| "candidate_loop fuel e player initial_depth depth enable_ab_pruning beta i [] st =
     Some (Inr st)"
| "candidate_loop fuel e player initial_depth depth enable_ab_pruning beta i (move # rest) st =
     (case heuristicNegamax fuel e
             (setCell e (l_gs st) (m_r move) (m_c move) (word_of_int player))
             (l_node_count st) (opponent_of player) initial_depth (depth - 1)
             enable_ab_pruning (- beta) (- l_alpha st + heuristic_val move) None None of
        None \<Rightarrow> None
      | Some (Inl f) \<Rightarrow> Some (Inl f)
      | Some (Inr res) \<Rightarrow>
          (case after_call e enable_ab_pruning beta i move st res of
             (st', stop) \<Rightarrow>
               if stop then Some (Inr st')
               else candidate_loop fuel e player initial_depth depth enable_ab_pruning beta
                      (Suc i) rest st'))"

section \<open>The driver\<close>

text \<open>
  The public \<^verbatim>\<open>heuristicNegamax\<close> (lines 45-90). \<open>gs_caller\<close> is the array the caller
  passes as \<^verbatim>\<open>const char *gs\<close>, \<open>gs_private\<close> the array \<^verbatim>\<open>_gs\<close> the driver
  allocates (empty before the allocation; the result keeps its last content although
  the source frees it).
\<close>

record driver_state =
  gs_caller :: board
  gs_private :: board
  d_node_count :: int
  d_actual_depth :: out_ptr
  d_move_r :: out_ptr
  d_move_c :: out_ptr

definition gs_size :: "env \<Rightarrow> nat" where
  "gs_size e = nat (g_board_size e * g_board_size e)"

text \<open>Lines 55-57.\<close>

definition count_stones :: "env \<Rightarrow> board \<Rightarrow> int" where
  "count_stones e b = int (length (filter (\<lambda>x. x \<noteq> 0) (take (gs_size e) b)))"

text \<open>One call of the recursive search on \<^verbatim>\<open>_gs\<close> with the full window
  (lines 64-65 and 76-77); the returned score is dropped.\<close>

definition run_search :: "nat \<Rightarrow> env \<Rightarrow> int \<Rightarrow> int \<Rightarrow> bool \<Rightarrow> driver_state
    \<Rightarrow> (fault + driver_state) option" where
  "run_search fuel e player d enable_ab_pruning st =
     (case heuristicNegamax fuel e (gs_private st) (d_node_count st) player d d
             enable_ab_pruning (INT_MIN div 2) (INT_MAX div 2) (d_move_r st) (d_move_c st) of
        None \<Rightarrow> None
      | Some (Inl f) \<Rightarrow> Some (Inl f)
      | Some (Inr res) \<Rightarrow>
          Some (Inr (st\<lparr>gs_private := gs_after res, d_node_count := node_count res,
                          d_move_r := move_r_after res, d_move_c := move_c_after res\<rparr>)))"

text \<open>
  The loop of lines 69-87 from depth \<open>d\<close> on. The readings of \<^verbatim>\<open>std::clock\<close> are an
  input: \<open>clock d\<close> is the pair \<open>(c_iteration, c_elapsed)\<close> computed in the iteration
  of depth \<open>d\<close>.
\<close>

function iterative_deepening :: "nat \<Rightarrow> env \<Rightarrow> (int \<Rightarrow> int \<times> int) \<Rightarrow> int \<Rightarrow> int \<Rightarrow> bool
    \<Rightarrow> int \<Rightarrow> driver_state \<Rightarrow> (fault + driver_state) option" where
  "iterative_deepening fuel e clock player time_limit enable_ab_pruning d st =
     (case run_search fuel e player d enable_ab_pruning
             (st\<lparr>gs_private := take (gs_size e) (gs_caller st)\<rparr>) of
        None \<Rightarrow> None
      | Some (Inl f) \<Rightarrow> Some (Inl f)
      | Some (Inr st') \<Rightarrow>
          (case clock d of
             (c_iteration, c_elapsed) \<Rightarrow>
               if d \<ge> kAvgMaximumDepth
                  \<or> c_elapsed + c_iteration * kAvgBranchingFactor * 2 > time_limit
               then Some (Inr (st'\<lparr>d_actual_depth := store (d_actual_depth st') d\<rparr>))
               else iterative_deepening fuel e clock player time_limit enable_ab_pruning
                      (d + 2) st'))"
  by pat_completeness auto
termination
  by (relation "measure (\<lambda>(fuel, e, clock, player, time_limit, enable_ab_pruning, d, st).
        nat (kAvgMaximumDepth - d))") auto

definition heuristicNegamax_driver :: "nat \<Rightarrow> env \<Rightarrow> (int \<Rightarrow> int \<times> int) \<Rightarrow> board \<Rightarrow> int
    \<Rightarrow> int \<Rightarrow> int \<Rightarrow> int \<Rightarrow> bool \<Rightarrow> out_ptr \<Rightarrow> out_ptr \<Rightarrow> out_ptr
    \<Rightarrow> (fault + driver_state) option" where
  "heuristicNegamax_driver fuel e clock gs nodes player depth time_limit enable_ab_pruning
       actual_depth move_r move_c =
     (let st0 = \<lparr>gs_caller = gs, gs_private = [], d_node_count = nodes,
                 d_actual_depth = actual_depth, d_move_r = move_r, d_move_c = move_c\<rparr>
      in
      if depth = 0 \<or> depth < - 1 then Some (Inr st0)
      else
        let st1 = st0\<lparr>gs_private := take (gs_size e) gs\<rparr>;
            cnt = count_stones e (gs_private st1);
            depth1 = (if cnt \<le> 2 then 6 else depth)
        in
        if depth1 > 0
        then run_search fuel e player depth1 enable_ab_pruning
               (st1\<lparr>d_actual_depth := store actual_depth depth1\<rparr>)
        else iterative_deepening fuel e clock player time_limit enable_ab_pruning 4 st1)"

section \<open>The exhaustive negamax\<close>

text \<open>\<^verbatim>\<open>negamax\<close> (lines 266-304): the returned score, or the running maximum inside
  the loop, with the board and the two output cells. The first argument bounds the depth
  of the call stack, as for the heuristic search. \<^verbatim>\<open>-negamax(...)\<close> is a fault when the
  call has returned \<^verbatim>\<open>INT_MIN\<close>, whose negation no \<^verbatim>\<open>int\<close> holds.\<close>

record nm_state =
  nm_score :: int
  nm_gs :: board
  nm_move_r :: out_ptr
  nm_move_c :: out_ptr

text \<open>Lines 296-300.\<close>

definition nm_update :: "int \<Rightarrow> int \<Rightarrow> int \<Rightarrow> nm_state \<Rightarrow> board \<Rightarrow> nm_state" where
  "nm_update s r c st gs' =
     (if s > nm_score st
      then \<lparr>nm_score = s, nm_gs = gs',
            nm_move_r = store (nm_move_r st) r, nm_move_c = store (nm_move_c st) c\<rparr>
      else st\<lparr>nm_gs := gs'\<rparr>)"

fun negamax :: "nat \<Rightarrow> env \<Rightarrow> board \<Rightarrow> int \<Rightarrow> int \<Rightarrow> out_ptr \<Rightarrow> out_ptr
      \<Rightarrow> (fault + nm_state) option"
  and negamax_loop :: "nat \<Rightarrow> env \<Rightarrow> int \<Rightarrow> int \<Rightarrow> (int \<times> int) list \<Rightarrow> nm_state
      \<Rightarrow> (fault + nm_state) option" where
  "negamax 0 e gs player depth move_r move_c = None"
| "negamax (Suc fuel) e gs player depth move_r move_c =
     (if depth = 0
      then Some (Inr \<lparr>nm_score = evalState e gs player, nm_gs = gs,
                      nm_move_r = move_r, nm_move_c = move_c\<rparr>)
      else negamax_loop fuel e player depth
             (cells 0 (g_board_size e - 1) 0 (g_board_size e - 1))
             \<lparr>nm_score = INT_MIN, nm_gs = gs, nm_move_r = move_r, nm_move_c = move_c\<rparr>)"
| "negamax_loop fuel e player depth [] st = Some (Inr st)"
| "negamax_loop fuel e player depth (rc # rest) st =
     (if getCell e (nm_gs st) (fst rc) (snd rc) \<noteq> 0
      then negamax_loop fuel e player depth rest st
      else if remoteCell e (nm_gs st) (fst rc) (snd rc)
      then negamax_loop fuel e player depth rest st
      else
        (case negamax fuel e (setCell e (nm_gs st) (fst rc) (snd rc) (word_of_int player))
                (opponent_of player) (depth - 1) None None of
           None \<Rightarrow> None
         | Some (Inl f) \<Rightarrow> Some (Inl f)
         | Some (Inr res) \<Rightarrow>
             if nm_score res = INT_MIN then Some (Inl SignedOverflow)
             else negamax_loop fuel e player depth rest
                    (nm_update (- nm_score res) (fst rc) (snd rc) st
                       (setCell e (nm_gs res) (fst rc) (snd rc) 0))))"

section \<open>A concrete configuration\<close>

text \<open>
  A 3 by 3 board with stand-ins for what the file takes from outside, used to run the
  definitions on concrete positions.

  Modelled from the spec: \<^verbatim>\<open>RenjuAIUtils::remoteCell\<close> is not among the sources. The
  spec and the comment at line 248 give it as true when no piece lies within two cells;
  \<open>remote_within2\<close> follows these words.
\<close>

definition in_board :: "int \<Rightarrow> int \<times> int \<Rightarrow> bool" where
  "in_board n rc = (0 \<le> fst rc \<and> fst rc < n \<and> 0 \<le> snd rc \<and> snd rc < n)"

definition remote_within2 :: "int \<Rightarrow> board \<Rightarrow> int \<Rightarrow> int \<Rightarrow> bool" where
  "remote_within2 n gs r c =
     list_all (\<lambda>rc. gs ! nat (n * fst rc + snd rc) = 0)
       (filter (in_board n) (cells (r - 2) (r + 2) (c - 2) (c + 2)))"

text \<open>A stable sort by descending \<open>heuristic_val\<close>, one of the orders \<^verbatim>\<open>std::sort\<close>
  may produce.\<close>

definition sort_desc :: "Move list \<Rightarrow> Move list" where
  "sort_desc ms = sort_key (\<lambda>m. - heuristic_val m) ms"

text \<open>On the scores used below the two stand-ins for the single-precision operations
  give what the source computes: \<open>x * 19 div 20\<close> is the truncated \<open>0.95 x\<close> and
  \<open>5 * n < d\<close> is \<open>n / d < 0.2\<close> for a positive \<open>d\<close>.\<close>

definition env3 :: env where
  "env3 = \<lparr>g_board_size = 3,
           evalMove = (\<lambda>gs r c player. 3 * r + c + player),
           evalState = (\<lambda>gs player. int (length (filter (\<lambda>x. x = word_of_int player) gs))
                                     - int (length (filter (\<lambda>x. x = 0) gs))),
           remoteCell = remote_within2 3,
           kRenjuAiEvalWinningScore = 10000,
           kRenjuAiEvalThreateningScore = 300,
           sortMoves = sort_desc,
           mulDecay = (\<lambda>x. x * 19 div 20),
           quotientBelow = (\<lambda>n d. 5 * n < d)\<rparr>"

text \<open>One stone in the centre; one empty cell in the centre; no empty cell.\<close>

definition b3 :: board where
  "b3 = [0, 0, 0, 0, 1, 0, 0, 0, 0]"

definition b3_one :: board where
  "b3_one = [1, 2, 1, 2, 0, 1, 2, 1, 2]"

definition b3_full :: board where
  "b3_full = [1, 2, 1, 2, 1, 1, 2, 1, 2]"

definition no_clock :: "int \<Rightarrow> int \<times> int" where
  "no_clock d = (0, 0)"


text \<open>A 2 by 2 board with two stones, and clock readings that grow with the depth.\<close>

definition env2 :: env where
  "env2 = env3\<lparr>g_board_size := 2, remoteCell := remote_within2 2\<rparr>"

definition b2 :: board where
  "b2 = [1, 0, 0, 2]"


text \<open>An evaluator under which the opponent (player 2) threatens: every cell is worth
  at least 32 to player 2, above the threatening threshold 30, and the most on the
  top-left cell, while player 1 scores \<open>k\<close> times the row-major index of the cell
  (the index is cut off at 0 and 8, so that the scores are bounded).\<close>

definition env_threat :: "int \<Rightarrow> env" where
  "env_threat k =
     env3\<lparr>evalMove := (\<lambda>gs r c player.
                         let i = max 0 (min 8 (3 * r + c))
                         in if player = 1 then k * i else 40 - i),
          kRenjuAiEvalThreateningScore := 30\<rparr>"


text \<open>The loop state the candidate loop reaches at the root of \<open>b3\<close> for player 1 at
  depth 2 under \<open>env_threat k\<close>, for \<open>k = 1\<close> and \<open>k = 2\<close>: every reply of player 2
  is worth 38 after the decay, 37 for the two cells next to the corner.\<close>

definition threat_loop_state :: "int \<Rightarrow> loop_state" where
  "threat_loop_state k =
     \<lparr>l_gs = b3, l_node_count = 11,
      l_candidate_moves =
        [\<lparr>m_r = 0, m_c = 0, heuristic_val = 0, actual_score = - 37\<rparr>,
         \<lparr>m_r = 0, m_c = 1, heuristic_val = k, actual_score = - 38 + k\<rparr>,
         \<lparr>m_r = 2, m_c = 2, heuristic_val = 8 * k, actual_score = - 38 + 8 * k\<rparr>,
         \<lparr>m_r = 2, m_c = 1, heuristic_val = 7 * k, actual_score = - 38 + 7 * k\<rparr>,
         \<lparr>m_r = 2, m_c = 0, heuristic_val = 6 * k, actual_score = - 38 + 6 * k\<rparr>,
         \<lparr>m_r = 1, m_c = 2, heuristic_val = 5 * k, actual_score = - 38 + 5 * k\<rparr>,
         \<lparr>m_r = 1, m_c = 0, heuristic_val = 3 * k, actual_score = - 38 + 3 * k\<rparr>,
         \<lparr>m_r = 0, m_c = 2, heuristic_val = 2 * k, actual_score = - 38 + 2 * k\<rparr>,
         \<lparr>m_r = 0, m_c = 1, heuristic_val = k, actual_score = - 38 + k\<rparr>,
         \<lparr>m_r = 0, m_c = 0, heuristic_val = 0, actual_score = - 37\<rparr>],
      l_max_score = - 38 + 8 * k, l_alpha = - 38 + 8 * k, l_move_r = Some 2, l_move_c = Some 2\<rparr>"

section \<open>Notions used to state the properties\<close>

text \<open>The cell of a move.\<close>

definition cell_of :: "Move \<Rightarrow> int \<times> int" where
  "cell_of m = (m_r m, m_c m)"


text \<open>What the search needs of the two outside functions for its scores to stay in the
  range of \<^verbatim>\<open>int\<close>. \<open>decay_spec\<close>: on a score of 10 or more the single-precision
  product \<^verbatim>\<open>(int)(x * 0.95f)\<close> is at least 9, at most \<open>x\<close>, and monotone.
  \<open>eval_bounded e H\<close>: the move evaluator returns scores between \<open>-H\<close> and \<open>H\<close>.\<close>

definition decay_spec :: "env \<Rightarrow> bool" where
  "decay_spec e =
     (\<forall>x y. 10 \<le> x \<longrightarrow>
        9 \<le> mulDecay e x \<and> mulDecay e x \<le> x \<and> (x \<le> y \<longrightarrow> mulDecay e x \<le> mulDecay e y))"




text \<open>The override as the spec words it: a \<open>blocking_score\<close> that is negative or zero
  is taken as 1.\<close>

definition spec_guard_b_score :: "int \<Rightarrow> int" where
  "spec_guard_b_score b_score = (if b_score \<le> 0 then 1 else b_score)"

text \<open>The occupied cells of the board, and their bounding box widened by 2 on every
  side and cut to the board, as the spec describes the region that is scanned.\<close>

definition occupied :: "env \<Rightarrow> board \<Rightarrow> (int \<times> int) set" where
  "occupied e gs =
     {(r, c). 0 \<le> r \<and> r < g_board_size e \<and> 0 \<le> c \<and> c < g_board_size e
              \<and> gs ! cell_index e r c \<noteq> 0}"

definition expanded_box :: "env \<Rightarrow> board \<Rightarrow> (int \<times> int) set" where
  "expanded_box e gs =
     {(r, c). max 0 (Min (fst ` occupied e gs) - 2) \<le> r
              \<and> r \<le> min (g_board_size e - 1) (Max (fst ` occupied e gs) + 2)
              \<and> max 0 (Min (snd ` occupied e gs) - 2) \<le> c
              \<and> c \<le> min (g_board_size e - 1) (Max (snd ` occupied e gs) + 2)}"

text \<open>The test of line 228 on a cell.\<close>

definition occ :: "env \<Rightarrow> board \<Rightarrow> int \<times> int \<Rightarrow> bool" where
  "occ e gs rc = (gs ! cell_index e (fst rc) (snd rc) \<noteq> 0)"

text \<open>
  The exhaustive search as the spec words it: at depth 0 the evaluation of the position,
  otherwise the maximum, over the empty non-remote cells of the whole board, of the
  negated value one level down with the player's stone on the cell; \<open>INT_MIN\<close> is the
  value the source starts its maximum from. \<open>nm_fold\<close> is the loop of lines 274-302 with
  the value of each cell given by a function.
\<close>

definition nm_candidate :: "env \<Rightarrow> board \<Rightarrow> int \<times> int \<Rightarrow> bool" where
  "nm_candidate e gs rc =
     (getCell e gs (fst rc) (snd rc) = 0 \<and> \<not> remoteCell e gs (fst rc) (snd rc))"

definition nm_candidates :: "env \<Rightarrow> board \<Rightarrow> (int \<times> int) list" where
  "nm_candidates e gs =
     filter (\<lambda>rc. getCell e gs (fst rc) (snd rc) = 0 \<and> \<not> remoteCell e gs (fst rc) (snd rc))
       (cells 0 (g_board_size e - 1) 0 (g_board_size e - 1))"

fun negamax_value :: "env \<Rightarrow> board \<Rightarrow> int \<Rightarrow> nat \<Rightarrow> int" where
  "negamax_value e gs player 0 = evalState e gs player"
| "negamax_value e gs player (Suc d) =
     Max (insert INT_MIN
       ((\<lambda>rc. - negamax_value e (setCell e gs (fst rc) (snd rc) (word_of_int player))
                  (opponent_of player) d) ` set (nm_candidates e gs)))"

definition child_value :: "env \<Rightarrow> board \<Rightarrow> int \<Rightarrow> nat \<Rightarrow> int \<times> int \<Rightarrow> int" where
  "child_value e gs player d rc =
     - negamax_value e (setCell e gs (fst rc) (snd rc) (word_of_int player)) (opponent_of player) d"

definition nm_fold :: "(int \<times> int \<Rightarrow> int) \<Rightarrow> board \<Rightarrow> nm_state \<Rightarrow> (int \<times> int) list
    \<Rightarrow> nm_state" where
  "nm_fold f gs st xs = foldl (\<lambda>st rc. nm_update (f rc) (fst rc) (snd rc) st gs) st xs"

section \<open>Facts about the concrete configuration\<close>

lemma sort_desc_spec:
  "mset (sort_desc ms) = mset ms \<and> sorted_wrt move_le (sort_desc ms)"
proof -
  have "sorted (map (\<lambda>m. - heuristic_val m) (sort_desc ms))"
    unfolding sort_desc_def by (rule sorted_sort_key)
  then have "sorted_wrt move_le (sort_desc ms)"
    by (simp add: sorted_map move_le_def[abs_def])
  then show ?thesis by (simp add: sort_desc_def)
qed

lemma sort_spec_env3: "sort_spec env3"
  by (simp add: sort_spec_def env3_def sort_desc_spec)

lemma moves_b3_one:
  "searchMovesOrdered env3 b3_one 1 =
     [\<lparr>m_r = 1, m_c = 1, heuristic_val = 5, actual_score = 0\<rparr>]"
  by code_simp

lemma moves_b3_full: "searchMovesOrdered env3 b3_full 1 = []"
  by code_simp

lemma sort_spec_env_threat: "sort_spec (env_threat k)"
  by (simp add: sort_spec_def env_threat_def env3_def sort_desc_spec)



section \<open>The candidate generator: members\<close>

lemma sortMoves_set: "sort_spec e \<Longrightarrow> set (sortMoves e ms) = set ms"
  unfolding sort_spec_def by (metis set_mset_mset)

lemma sortMoves_length: "sort_spec e \<Longrightarrow> length (sortMoves e ms) = length ms"
  unfolding sort_spec_def by (metis size_mset)

lemma searchMovesOrdered_set:
  "sort_spec e \<Longrightarrow>
   set (searchMovesOrdered e gs player) =
   make_move e gs player `
     {rc \<in> set (scan_cells e (clamp_extent e (extent e gs))). is_candidate e gs rc}"
  by (simp add: searchMovesOrdered_def sortMoves_set)

lemma searchMovesOrdered_length:
  "sort_spec e \<Longrightarrow>
   length (searchMovesOrdered e gs player) =
   length (filter (is_candidate e gs) (scan_cells e (clamp_extent e (extent e gs))))"
  by (simp add: searchMovesOrdered_def sortMoves_length)

lemma searchMovesOrdered_empty_cell:
  assumes "sort_spec e" and "m \<in> set (searchMovesOrdered e gs player)"
  shows "gs ! cell_index e (m_r m) (m_c m) = 0"
  using assms by (auto simp: searchMovesOrdered_set make_move_def is_candidate_def)

lemma candidates_empty_cell:
  assumes "sort_spec e"
    and "m \<in> set (candidates e gs player initial_depth depth block_opponent
                   (searchMovesOrdered e gs player) (searchMovesOrdered e gs opponent))"
  shows "gs ! cell_index e (m_r m) (m_c m) = 0"
proof -
  from assms(2) consider
      (own) "m \<in> set (searchMovesOrdered e gs player)"
    | (block) m' where "m' \<in> set (searchMovesOrdered e gs opponent)"
        and "m_r m = m_r m'" and "m_c m = m_c m'"
    by (auto simp: candidates_def blocking_moves_def split: if_splits dest: in_set_takeD)
  then show ?thesis
    using searchMovesOrdered_empty_cell[OF assms(1)] by cases auto
qed

section \<open>The board after a search\<close>

lemma after_call_gs:
  "l_gs (fst (after_call e enable_ab_pruning beta i move st res)) =
   setCell e (gs_after res) (m_r move) (m_c move) 0"
  by (simp add: after_call_def Let_def)

lemma setCell_restore:
  "gs ! cell_index e r c = 0 \<Longrightarrow> setCell e (setCell e gs r c v) r c 0 = gs"
  by (metis list_update_id list_update_overwrite setCell_def)

lemma candidate_loop_restores:
  assumes IH: "\<And>gs nodes player depth alpha beta res.
      heuristicNegamax fuel e gs nodes player initial_depth depth enable_ab_pruning alpha beta
        None None = Some (Inr res) \<Longrightarrow> gs_after res = gs"
  shows "candidate_loop fuel e player initial_depth depth enable_ab_pruning beta i todo st
           = Some (Inr st')
         \<Longrightarrow> \<forall>m \<in> set todo. l_gs st ! cell_index e (m_r m) (m_c m) = 0
         \<Longrightarrow> l_gs st' = l_gs st"
proof (induction todo arbitrary: i st)
  case Nil
  then show ?case by simp
next
  case (Cons move rest)
  let ?call = "heuristicNegamax fuel e
      (setCell e (l_gs st) (m_r move) (m_c move) (word_of_int player))
      (l_node_count st) (opponent_of player) initial_depth (depth - 1)
      enable_ab_pruning (- beta) (- l_alpha st + heuristic_val move) None None"
  from Cons.prems(1) obtain res where call: "?call = Some (Inr res)"
    by (auto split: option.splits sum.splits)
  obtain st1 stop where ac: "after_call e enable_ab_pruning beta i move st res = (st1, stop)"
    by (cases "after_call e enable_ab_pruning beta i move st res")
  have "gs_after res = setCell e (l_gs st) (m_r move) (m_c move) (word_of_int player)"
    by (rule IH[OF call])
  moreover have "l_gs st ! cell_index e (m_r move) (m_c move) = 0"
    using Cons.prems(2) by simp
  ultimately have st1: "l_gs st1 = l_gs st"
    using after_call_gs[of e enable_ab_pruning beta i move st res] ac
    by (simp add: setCell_restore)
  show ?case
  proof (cases stop)
    case True
    with Cons.prems(1) call ac have "st' = st1" by simp
    with st1 show ?thesis by simp
  next
    case False
    with Cons.prems(1) call ac
    have "candidate_loop fuel e player initial_depth depth enable_ab_pruning beta (Suc i) rest st1
            = Some (Inr st')" by simp
    moreover have "\<forall>m \<in> set rest. l_gs st1 ! cell_index e (m_r m) (m_c m) = 0"
      using Cons.prems(2) st1 by simp
    ultimately have "l_gs st' = l_gs st1" by (rule Cons.IH)
    with st1 show ?thesis by simp
  qed
qed

lemma finish_gs: "gs_after (finish e initial_depth depth block_opponent st) = l_gs st"
  by (simp add: finish_def blocking_override_def Let_def)

lemma heuristicNegamax_restores:
  assumes "sort_spec e"
  shows "heuristicNegamax fuel e gs nodes player initial_depth depth enable_ab_pruning alpha beta
           move_r move_c = Some (Inr res) \<Longrightarrow> gs_after res = gs"
proof (induction fuel arbitrary: gs nodes player depth alpha beta move_r move_c res)
  case 0
  then show ?case by simp
next
  case (Suc fuel)
  show ?case
  proof (cases "depth = 0 \<or> length (searchMovesOrdered e gs player) = 0
      \<or> length (searchMovesOrdered e gs player) = 1
      \<or> heuristic_val (searchMovesOrdered e gs player ! 0) \<ge> kRenjuAiEvalWinningScore e")
    case True
    with Suc.prems show ?thesis
      by (auto simp: Let_def split: if_splits)
  next
    case False
    let ?blk = "heuristic_val (searchMovesOrdered e gs (opponent_of player) ! 0)
                  \<ge> kRenjuAiEvalThreateningScore e"
    let ?cands = "candidates e gs player initial_depth depth ?blk
        (searchMovesOrdered e gs player) (searchMovesOrdered e gs (opponent_of player))"
    let ?st0 = "\<lparr>l_gs = gs, l_node_count = nodes + 1, l_candidate_moves = ?cands,
                 l_max_score = INT_MIN, l_alpha = alpha,
                 l_move_r = move_r, l_move_c = move_c\<rparr>"
    from False Suc.prems obtain st where
      loop: "candidate_loop fuel e player initial_depth depth enable_ab_pruning beta 0 ?cands ?st0
               = Some (Inr st)"
      and res: "res = finish e initial_depth depth ?blk st"
      by (auto simp: Let_def split: if_splits option.splits sum.splits)
    have "\<forall>m \<in> set ?cands. l_gs ?st0 ! cell_index e (m_r m) (m_c m) = 0"
      using candidates_empty_cell[OF assms] by simp
    with loop have "l_gs st = l_gs ?st0"
      by (rule candidate_loop_restores[rotated 1]) (rule Suc.IH)
    with res show ?thesis by (simp add: finish_gs)
  qed
qed

lemma run_search_caller:
  "run_search fuel e player d enable_ab_pruning st = Some (Inr st') \<Longrightarrow>
   gs_caller st' = gs_caller st"
  by (auto simp: run_search_def split: option.splits sum.splits)

declare iterative_deepening.simps [simp del]

lemma iterative_deepening_caller:
  "iterative_deepening fuel e clock player time_limit enable_ab_pruning d st = Some (Inr st')
   \<Longrightarrow> gs_caller st' = gs_caller st"
proof (induction fuel e clock player time_limit enable_ab_pruning d st
    rule: iterative_deepening.induct)
  case (1 fuel e clock player time_limit enable_ab_pruning d st)
  note step = iterative_deepening.simps[of fuel e clock player time_limit enable_ab_pruning d st]
  let ?st = "st\<lparr>gs_private := take (gs_size e) (gs_caller st)\<rparr>"
  from "1.prems" obtain st1 where
    rs: "run_search fuel e player d enable_ab_pruning ?st = Some (Inr st1)"
    unfolding step by (auto split: option.splits sum.splits)
  then have c1: "gs_caller st1 = gs_caller st"
    by (auto dest: run_search_caller)
  obtain c_iteration c_elapsed where ck: "clock d = (c_iteration, c_elapsed)"
    by (cases "clock d")
  show ?case
  proof (cases "d \<ge> kAvgMaximumDepth
      \<or> c_elapsed + c_iteration * kAvgBranchingFactor * 2 > time_limit")
    case True
    with "1.prems" rs ck c1 show ?thesis unfolding step by auto
  next
    case False
    with "1.prems" rs ck
    have "iterative_deepening fuel e clock player time_limit enable_ab_pruning (d + 2) st1
            = Some (Inr st')" unfolding step by simp
    with "1.IH"[OF rs refl ck[symmetric] False] c1 show ?thesis by simp
  qed
qed

lemma heuristicNegamax_driver_caller:
  "heuristicNegamax_driver fuel e clock gs nodes player depth time_limit enable_ab_pruning
     actual_depth move_r move_c = Some (Inr st) \<Longrightarrow> gs_caller st = gs"
  by (auto simp: heuristicNegamax_driver_def Let_def split: if_splits
      dest!: run_search_caller iterative_deepening_caller)

text \<open>
  C1. When the recursive \<open>heuristicNegamax\<close> returns, whatever the board, the player,
  the depths, the pruning flag and the window, the board is what it was at entry: every
  stone the candidate loop has placed has been taken off again. The driver never changes
  the array of its caller; it searches its own copy.
\<close>

theorem board_restoration:
  assumes "sort_spec e"
  shows "(heuristicNegamax fuel e gs nodes player initial_depth depth enable_ab_pruning
            alpha beta move_r move_c = Some (Inr res) \<longrightarrow> gs_after res = gs)
         \<and> (heuristicNegamax_driver fuel' e clock gs nodes player depth' time_limit
              enable_ab_pruning actual_depth move_r move_c = Some (Inr st)
            \<longrightarrow> gs_caller st = gs)"
proof (intro conjI impI)
  assume "heuristicNegamax fuel e gs nodes player initial_depth depth enable_ab_pruning
            alpha beta move_r move_c = Some (Inr res)"
  then show "gs_after res = gs" by (rule heuristicNegamax_restores[OF assms])
next
  assume "heuristicNegamax_driver fuel' e clock gs nodes player depth' time_limit
              enable_ab_pruning actual_depth move_r move_c = Some (Inr st)"
  then show "gs_caller st = gs" by (rule heuristicNegamax_driver_caller)
qed

theorem board_restoration_witness:
  "sort_spec env3
   \<and> heuristicNegamax 3 env3 b3 0 1 2 2 True (- 100) 100 (Some 7) (Some 7) =
       Some (Inr \<lparr>ret = 0, gs_after = [0, 0, 0, 0, 1, 0, 0, 0, 0], node_count = 9,
                  move_r_after = Some 2, move_c_after = Some 2\<rparr>)
   \<and> gs_after \<lparr>ret = 0, gs_after = [0, 0, 0, 0, 1, 0, 0, 0, 0], node_count = 9,
                move_r_after = Some 2, move_c_after = Some 2\<rparr> = b3
   \<and> heuristicNegamax_driver 3 env3 no_clock b3_one 0 1 2 1000 True (Some 0) (Some 7) (Some 7) =
       Some (Inr \<lparr>gs_caller = b3_one, gs_private = b3_one, d_node_count = 1,
                  d_actual_depth = Some 2, d_move_r = Some 1, d_move_c = Some 1\<rparr>)
   \<and> gs_caller \<lparr>gs_caller = b3_one, gs_private = b3_one, d_node_count = 1,
                 d_actual_depth = Some 2, d_move_r = Some 1, d_move_c = Some 1\<rparr> = b3_one"
proof -
  have run: "heuristicNegamax 3 env3 b3 0 1 2 2 True (- 100) 100 (Some 7) (Some 7) =
       Some (Inr \<lparr>ret = 0, gs_after = [0, 0, 0, 0, 1, 0, 0, 0, 0], node_count = 9,
                  move_r_after = Some 2, move_c_after = Some 2\<rparr>)"
    by code_simp
  have drv: "heuristicNegamax_driver 3 env3 no_clock b3_one 0 1 2 1000 True (Some 0) (Some 7)
       (Some 7) =
       Some (Inr \<lparr>gs_caller = b3_one, gs_private = b3_one, d_node_count = 1,
                  d_actual_depth = Some 2, d_move_r = Some 1, d_move_c = Some 1\<rparr>)"
    by code_simp
  from board_restoration[OF sort_spec_env3, of 3 b3 0 1 2 2 True "- 100" 100 "Some 7" "Some 7"]
    run drv sort_spec_env3
  show ?thesis by (simp add: b3_def)
qed

section \<open>The early returns\<close>

text \<open>
  C8. At depth 1 or more, when the moving player's candidate list is empty, the recursive
  \<open>heuristicNegamax\<close> returns the score 0 and leaves both output cells as they were.
\<close>

theorem empty_candidates_return_zero:
  assumes "1 \<le> depth" and "searchMovesOrdered e gs player = []"
  shows "heuristicNegamax (Suc fuel) e gs nodes player initial_depth depth enable_ab_pruning
           alpha beta move_r move_c =
         Some (Inr \<lparr>ret = 0, gs_after = gs, node_count = nodes + 1,
                    move_r_after = move_r, move_c_after = move_c\<rparr>)"
  using assms by (simp add: Let_def)

theorem empty_candidates_return_zero_witness:
  "(1::int) \<le> 4 \<and> searchMovesOrdered env3 b3_full 1 = []
   \<and> heuristicNegamax (Suc 0) env3 b3_full 0 1 4 4 True (- 100) 100 (Some 7) (Some 8) =
       Some (Inr \<lparr>ret = 0, gs_after = b3_full, node_count = 0 + 1,
                  move_r_after = Some 7, move_c_after = Some 8\<rparr>)"
  using empty_candidates_return_zero[of 4 env3 b3_full 1 0 0 4 True "- 100" 100 "Some 7" "Some 8"]
    moves_b3_full
  by simp

text \<open>
  C5. At depth 1 or more, when the moving player's ordered candidate list has exactly one
  entry, or its first entry has a \<open>heuristic_val\<close> at or above the winning threshold, the
  search returns that entry's cell as the move and its \<open>heuristic_val\<close> as the score.
  It does so with a call stack of one frame (\<open>fuel = 0\<close>), so without any recursive
  call.
\<close>

theorem shortcut_returns_top_candidate:
  assumes "1 \<le> depth"
    and "searchMovesOrdered e gs player \<noteq> []"
    and "length (searchMovesOrdered e gs player) = 1
         \<or> heuristic_val (searchMovesOrdered e gs player ! 0) \<ge> kRenjuAiEvalWinningScore e"
  shows "heuristicNegamax (Suc fuel) e gs nodes player initial_depth depth enable_ab_pruning
           alpha beta move_r move_c =
         Some (Inr \<lparr>ret = heuristic_val (searchMovesOrdered e gs player ! 0), gs_after = gs,
                    node_count = nodes + 1,
                    move_r_after = store move_r (m_r (searchMovesOrdered e gs player ! 0)),
                    move_c_after = store move_c (m_c (searchMovesOrdered e gs player ! 0))\<rparr>)"
  using assms by (auto simp add: Let_def)

theorem shortcut_returns_top_candidate_witness:
  "(1::int) \<le> 4 \<and> searchMovesOrdered env3 b3_one 1 \<noteq> []
   \<and> length (searchMovesOrdered env3 b3_one 1) = 1
   \<and> heuristicNegamax (Suc 0) env3 b3_one 0 1 4 4 True (- 100) 100 (Some 7) (Some 8) =
       Some (Inr \<lparr>ret = 5, gs_after = b3_one, node_count = 1,
                  move_r_after = Some 1, move_c_after = Some 1\<rparr>)"
  using shortcut_returns_top_candidate[of 4 env3 b3_one 1 0 0 4 True "- 100" 100 "Some 7" "Some 8"]
    moves_b3_one
  by (simp add: store_def)

section \<open>Both players get the same cells\<close>

lemma cell_of_make_move: "cell_of (make_move e gs player rc) = rc"
  by (simp add: cell_of_def make_move_def)

lemma map_cell_of_make_move: "map cell_of (map (make_move e gs player) ys) = ys"
  by (induction ys) (simp_all add: cell_of_make_move)

lemma searchMovesOrdered_cells:
  assumes "sort_spec e"
  shows "mset (map cell_of (searchMovesOrdered e gs player)) =
         mset (filter (is_candidate e gs) (scan_cells e (clamp_extent e (extent e gs))))"
proof -
  let ?ys = "filter (is_candidate e gs) (scan_cells e (clamp_extent e (extent e gs)))"
  have "mset (searchMovesOrdered e gs player) = mset (map (make_move e gs player) ?ys)"
    using assms by (simp add: searchMovesOrdered_def sort_spec_def)
  then have "mset (map cell_of (searchMovesOrdered e gs player)) =
             mset (map cell_of (map (make_move e gs player) ?ys))"
    by (metis mset_map)
  then show ?thesis by (simp only: map_cell_of_make_move)
qed

lemma candidate_loop_no_fault:
  assumes IH: "\<And>gs nodes player depth alpha beta.
      heuristicNegamax fuel e gs nodes player initial_depth depth enable_ab_pruning alpha beta
        None None \<noteq> Some (Inl f)"
  shows "candidate_loop fuel e player initial_depth depth enable_ab_pruning beta i todo st
           \<noteq> Some (Inl f)"
proof (induction todo arbitrary: i st)
  case Nil
  then show ?case by simp
next
  case (Cons move rest)
  show ?case
    using IH Cons.IH
    by (auto split: option.splits sum.splits prod.splits)
qed

lemma heuristicNegamax_no_fault:
  assumes "sort_spec e"
  shows "heuristicNegamax fuel e gs nodes player initial_depth depth enable_ab_pruning alpha beta
           move_r move_c \<noteq> Some (Inl f)"
proof (induction fuel arbitrary: gs nodes player depth alpha beta move_r move_c)
  case 0
  then show ?case by simp
next
  case (Suc fuel)
  have len: "length (searchMovesOrdered e gs (opponent_of player)) =
             length (searchMovesOrdered e gs player)"
    by (simp add: searchMovesOrdered_length[OF assms])
  show ?case
    using len candidate_loop_no_fault[where fuel = fuel and e = e and f = f, OF Suc.IH]
    by (auto simp: Let_def split: option.splits sum.splits)
qed



text \<open>
  C10. On a given board \<open>searchMovesOrdered\<close> selects the same cells for both players
  (the player only enters the scores), so a non-empty list for the moving player means
  a non-empty list for the opponent, and the read of \<^verbatim>\<open>(*moves_opponent)[0]\<close> at
  line 129 is always in range: the search never ends in \<open>VectorIndexOutOfRange\<close>.
\<close>

theorem candidate_cells_player_independent:
  assumes "sort_spec e"
  shows "mset (map cell_of (searchMovesOrdered e gs player)) =
           mset (map cell_of (searchMovesOrdered e gs player'))
         \<and> (searchMovesOrdered e gs player \<noteq> []
              \<longrightarrow> searchMovesOrdered e gs (opponent_of player) \<noteq> [])
         \<and> heuristicNegamax fuel e gs nodes player initial_depth depth enable_ab_pruning
             alpha beta move_r move_c \<noteq> Some (Inl VectorIndexOutOfRange)"
proof (intro conjI impI)
  show "mset (map cell_of (searchMovesOrdered e gs player)) =
        mset (map cell_of (searchMovesOrdered e gs player'))"
    by (simp only: searchMovesOrdered_cells[OF assms])
next
  assume "searchMovesOrdered e gs player \<noteq> []"
  moreover have "length (searchMovesOrdered e gs (opponent_of player)) =
      length (searchMovesOrdered e gs player)"
    by (simp add: searchMovesOrdered_length[OF assms])
  ultimately show "searchMovesOrdered e gs (opponent_of player) \<noteq> []"
    by (metis length_0_conv)
next
  show "heuristicNegamax fuel e gs nodes player initial_depth depth enable_ab_pruning
          alpha beta move_r move_c \<noteq> Some (Inl VectorIndexOutOfRange)"
    by (rule heuristicNegamax_no_fault[OF assms])
qed

theorem candidate_cells_player_independent_witness:
  "sort_spec env3
   \<and> mset (map cell_of (searchMovesOrdered env3 b3 1)) =
       mset (map cell_of (searchMovesOrdered env3 b3 2))
   \<and> searchMovesOrdered env3 b3 1 \<noteq> []
   \<and> searchMovesOrdered env3 b3 (opponent_of 1) \<noteq> []
   \<and> heuristicNegamax 3 env3 b3 0 1 2 2 True (- 100) 100 (Some 7) (Some 7)
       \<noteq> Some (Inl VectorIndexOutOfRange)"
proof -
  have "searchMovesOrdered env3 b3 1 \<noteq> []" by code_simp
  with candidate_cells_player_independent[OF sort_spec_env3, of b3 1 2 3 0 2 2 True "- 100" 100
      "Some 7" "Some 7"] sort_spec_env3
  show ?thesis by simp
qed

section \<open>The candidate loop\<close>

lemma after_call_max:
  "l_max_score (fst (after_call e enable_ab_pruning beta i move st res)) =
   max (l_max_score st) (heuristic_val move - decay e (ret res))"
  by (simp add: after_call_def Let_def max_def)

lemma after_call_alpha:
  "l_alpha (fst (after_call e enable_ab_pruning beta i move st res)) =
   max (l_alpha st) (max (l_max_score st) (heuristic_val move - decay e (ret res)))"
  by (simp add: after_call_def Let_def max_def)

lemma after_call_moves:
  "l_move_r (fst (after_call e enable_ab_pruning beta i move st res)) =
     (if heuristic_val move - decay e (ret res) > l_max_score st
      then store (l_move_r st) (m_r move) else l_move_r st)"
  "l_move_c (fst (after_call e enable_ab_pruning beta i move st res)) =
     (if heuristic_val move - decay e (ret res) > l_max_score st
      then store (l_move_c st) (m_c move) else l_move_c st)"
  by (simp_all add: after_call_def Let_def)

lemma after_call_cands:
  "l_candidate_moves (fst (after_call e enable_ab_pruning beta i move st res)) =
     (l_candidate_moves st)[i := (l_candidate_moves st ! i)
        \<lparr>actual_score := heuristic_val move - decay e (ret res)\<rparr>]"
  by (simp add: after_call_def Let_def)

lemma after_call_stop:
  "snd (after_call e enable_ab_pruning beta i move st res) =
     (enable_ab_pruning
      \<and> beta \<le> decay e (max (l_max_score st) (heuristic_val move - decay e (ret res))))"
  by (simp add: after_call_def Let_def max_def)

lemma candidate_loop_Cons:
  assumes "candidate_loop fuel e player initial_depth depth enable_ab_pruning beta i
             (move # rest) st = Some (Inr st')"
  shows "\<exists>res.
    heuristicNegamax fuel e
      (setCell e (l_gs st) (m_r move) (m_c move) (word_of_int player))
      (l_node_count st) (opponent_of player) initial_depth (depth - 1)
      enable_ab_pruning (- beta) (- l_alpha st + heuristic_val move) None None = Some (Inr res)
    \<and> (snd (after_call e enable_ab_pruning beta i move st res) \<longrightarrow>
           st' = fst (after_call e enable_ab_pruning beta i move st res))
    \<and> (\<not> snd (after_call e enable_ab_pruning beta i move st res) \<longrightarrow>
           candidate_loop fuel e player initial_depth depth enable_ab_pruning beta (Suc i) rest
             (fst (after_call e enable_ab_pruning beta i move st res)) = Some (Inr st'))"
proof -
  from assms obtain res where call: "heuristicNegamax fuel e
      (setCell e (l_gs st) (m_r move) (m_c move) (word_of_int player))
      (l_node_count st) (opponent_of player) initial_depth (depth - 1)
      enable_ab_pruning (- beta) (- l_alpha st + heuristic_val move) None None = Some (Inr res)"
    by (auto split: option.splits sum.splits)
  obtain st1 stop where ac: "after_call e enable_ab_pruning beta i move st res = (st1, stop)"
    by (cases "after_call e enable_ab_pruning beta i move st res")
  from assms call ac have r: "if stop then st' = st1
      else candidate_loop fuel e player initial_depth depth enable_ab_pruning beta (Suc i) rest st1
             = Some (Inr st')"
    by (simp split: if_splits)
  from call r ac show ?thesis
    by (intro exI[of _ res]) (simp split: if_splits)
qed

lemma candidate_loop_max_mono:
  "candidate_loop fuel e player initial_depth depth enable_ab_pruning beta i todo st
     = Some (Inr st') \<Longrightarrow> l_max_score st \<le> l_max_score st'"
proof (induction todo arbitrary: i st)
  case Nil
  then show ?case by simp
next
  case (Cons move rest)
  obtain res where
    stop: "snd (after_call e enable_ab_pruning beta i move st res) \<Longrightarrow>
           st' = fst (after_call e enable_ab_pruning beta i move st res)"
    and cont: "\<not> snd (after_call e enable_ab_pruning beta i move st res) \<Longrightarrow>
           candidate_loop fuel e player initial_depth depth enable_ab_pruning beta (Suc i) rest
             (fst (after_call e enable_ab_pruning beta i move st res)) = Some (Inr st')"
    using candidate_loop_Cons[OF Cons.prems] by blast
  let ?st1 = "fst (after_call e enable_ab_pruning beta i move st res)"
  have le: "l_max_score st \<le> l_max_score ?st1" by (simp add: after_call_max)
  show ?case
  proof (cases "snd (after_call e enable_ab_pruning beta i move st res)")
    case True
    from stop[OF True] le show ?thesis by simp
  next
    case False
    from Cons.IH[OF cont[OF False]] le show ?thesis by simp
  qed
qed

lemma store_store: "store (store p a) b = store p b"
  by (cases p) (simp_all add: store_def)

text \<open>After iteration 0 the first entry of the candidate vector is not written again.\<close>

lemma candidate_loop_keeps_first:
  "candidate_loop fuel e player initial_depth depth enable_ab_pruning beta i todo st
     = Some (Inr st') \<Longrightarrow> 0 < i \<Longrightarrow>
   l_candidate_moves st' ! 0 = l_candidate_moves st ! 0"
proof (induction todo arbitrary: i st)
  case Nil
  then show ?case by simp
next
  case (Cons move rest)
  obtain res where
    stop: "snd (after_call e enable_ab_pruning beta i move st res) \<Longrightarrow>
           st' = fst (after_call e enable_ab_pruning beta i move st res)"
    and cont: "\<not> snd (after_call e enable_ab_pruning beta i move st res) \<Longrightarrow>
           candidate_loop fuel e player initial_depth depth enable_ab_pruning beta (Suc i) rest
             (fst (after_call e enable_ab_pruning beta i move st res)) = Some (Inr st')"
    using candidate_loop_Cons[OF Cons.prems(1)] by blast
  let ?st1 = "fst (after_call e enable_ab_pruning beta i move st res)"
  have keep: "l_candidate_moves ?st1 ! 0 = l_candidate_moves st ! 0"
    using Cons.prems(2) by (simp add: after_call_cands)
  show ?case
  proof (cases "snd (after_call e enable_ab_pruning beta i move st res)")
    case True
    from stop[OF True] keep show ?thesis by simp
  next
    case False
    from Cons.IH[OF cont[OF False]] keep show ?thesis by simp
  qed
qed

text \<open>The output cells hold what they held at entry or what a \<open>store\<close> put there.\<close>

lemma candidate_loop_moves:
  "candidate_loop fuel e player initial_depth depth enable_ab_pruning beta i todo st
     = Some (Inr st') \<Longrightarrow>
   (\<forall>v. store (l_move_r st') v = store (l_move_r st) v)
   \<and> (\<forall>v. store (l_move_c st') v = store (l_move_c st) v)"
proof (induction todo arbitrary: i st)
  case Nil
  then show ?case by simp
next
  case (Cons move rest)
  obtain res where
    stop: "snd (after_call e enable_ab_pruning beta i move st res) \<Longrightarrow>
           st' = fst (after_call e enable_ab_pruning beta i move st res)"
    and cont: "\<not> snd (after_call e enable_ab_pruning beta i move st res) \<Longrightarrow>
           candidate_loop fuel e player initial_depth depth enable_ab_pruning beta (Suc i) rest
             (fst (after_call e enable_ab_pruning beta i move st res)) = Some (Inr st')"
    using candidate_loop_Cons[OF Cons.prems(1)] by blast
  let ?st1 = "fst (after_call e enable_ab_pruning beta i move st res)"
  have keep: "(\<forall>v. store (l_move_r ?st1) v = store (l_move_r st) v)
      \<and> (\<forall>v. store (l_move_c ?st1) v = store (l_move_c st) v)"
    by (simp add: after_call_moves store_store)
  show ?case
  proof (cases "snd (after_call e enable_ab_pruning beta i move st res)")
    case True
    from stop[OF True] keep show ?thesis by simp
  next
    case False
    from Cons.IH[OF cont[OF False]] keep show ?thesis by simp
  qed
qed

text \<open>What iteration 0 leaves in the first entry of the candidate vector.\<close>

lemma candidate_loop_first:
  assumes "candidate_loop fuel e player initial_depth depth enable_ab_pruning beta 0
             (move # rest) st = Some (Inr st')"
    and "l_candidate_moves st = move # rest"
  shows "\<exists>r0.
    heuristicNegamax fuel e
      (setCell e (l_gs st) (m_r move) (m_c move) (word_of_int player))
      (l_node_count st) (opponent_of player) initial_depth (depth - 1)
      enable_ab_pruning (- beta) (- l_alpha st + heuristic_val move) None None = Some (Inr r0)
    \<and> l_candidate_moves st' ! 0 = move\<lparr>actual_score := heuristic_val move - decay e (ret r0)\<rparr>
    \<and> heuristic_val move - decay e (ret r0) \<le> l_max_score st'"
proof -
  obtain res where
    call: "heuristicNegamax fuel e
      (setCell e (l_gs st) (m_r move) (m_c move) (word_of_int player))
      (l_node_count st) (opponent_of player) initial_depth (depth - 1)
      enable_ab_pruning (- beta) (- l_alpha st + heuristic_val move) None None = Some (Inr res)"
    and stop: "snd (after_call e enable_ab_pruning beta 0 move st res) \<Longrightarrow>
           st' = fst (after_call e enable_ab_pruning beta 0 move st res)"
    and cont: "\<not> snd (after_call e enable_ab_pruning beta 0 move st res) \<Longrightarrow>
           candidate_loop fuel e player initial_depth depth enable_ab_pruning beta (Suc 0) rest
             (fst (after_call e enable_ab_pruning beta 0 move st res)) = Some (Inr st')"
    using candidate_loop_Cons[OF assms(1)] by blast
  let ?st1 = "fst (after_call e enable_ab_pruning beta 0 move st res)"
  let ?a = "heuristic_val move - decay e (ret res)"
  have c1: "l_candidate_moves ?st1 ! 0 = move\<lparr>actual_score := ?a\<rparr>"
    using assms(2) by (simp add: after_call_cands)
  have m1: "?a \<le> l_max_score ?st1" by (simp add: after_call_max)
  have "l_candidate_moves st' ! 0 = move\<lparr>actual_score := ?a\<rparr> \<and> ?a \<le> l_max_score st'"
  proof (cases "snd (after_call e enable_ab_pruning beta 0 move st res)")
    case True
    from stop[OF True] c1 m1 show ?thesis by simp
  next
    case False
    from candidate_loop_keeps_first[OF cont[OF False]] candidate_loop_max_mono[OF cont[OF False]]
      c1 m1
    show ?thesis by simp
  qed
  with call show ?thesis by blast
qed

lemma candidates_blocking_first:
  assumes "moves_opponent \<noteq> []"
  shows "\<exists>rest. candidates e gs player initial_depth depth True moves_player moves_opponent =
    (moves_opponent ! 0)\<lparr>heuristic_val :=
        evalMove e gs (m_r (moves_opponent ! 0)) (m_c (moves_opponent ! 0)) player\<rparr> # rest"
  using assms by (cases moves_opponent) (simp_all add: candidates_def blocking_moves_def)

section \<open>Bounds on the scores\<close>

lemma decay_mono: "decay_spec e \<Longrightarrow> x \<le> y \<Longrightarrow> decay e x \<le> decay e y"
  unfolding decay_spec_def decay_def
  by (smt (verit))










section \<open>The move outputs\<close>





section \<open>The driver: choice of the mode\<close>

lemma count_stones_take: "count_stones e (take (gs_size e) gs) = count_stones e gs"
  by (simp add: count_stones_def)

lemma run_search_private:
  "run_search fuel e player d enable_ab_pruning st = Some (Inr st') \<Longrightarrow>
   gs_caller st' = gs_caller st \<and> d_actual_depth st' = d_actual_depth st"
  by (auto simp: run_search_def split: option.splits sum.splits)







text \<open>
  C9. On a board with at most two occupied cells, a call of the driver that searches at
  all (requested depth \<open>-1\<close> or positive) makes one search at depth 6 whatever depth
  was requested: it is the call with depth 6, and it reports 6 as the actual depth.
\<close>

theorem opening_forces_depth_six:
  assumes "count_stones e gs \<le> 2" and "depth = - 1 \<or> 0 < depth"
  shows "heuristicNegamax_driver fuel e clock gs nodes player depth time_limit enable_ab_pruning
           actual_depth move_r move_c =
         run_search fuel e player 6 enable_ab_pruning
           \<lparr>gs_caller = gs, gs_private = take (gs_size e) gs, d_node_count = nodes,
            d_actual_depth = store actual_depth 6, d_move_r = move_r, d_move_c = move_c\<rparr>
       \<and> heuristicNegamax_driver fuel e clock gs nodes player depth time_limit enable_ab_pruning
           actual_depth move_r move_c =
         heuristicNegamax_driver fuel e clock gs nodes player 6 time_limit enable_ab_pruning
           actual_depth move_r move_c
       \<and> (heuristicNegamax_driver fuel e clock gs nodes player depth time_limit
             enable_ab_pruning actual_depth move_r move_c = Some (Inr st)
           \<longrightarrow> d_actual_depth st = store actual_depth 6)"
proof -
  have eq: "\<And>depth. depth = - 1 \<or> 0 < depth \<Longrightarrow>
      heuristicNegamax_driver fuel e clock gs nodes player depth time_limit enable_ab_pruning
           actual_depth move_r move_c =
         run_search fuel e player 6 enable_ab_pruning
           \<lparr>gs_caller = gs, gs_private = take (gs_size e) gs, d_node_count = nodes,
            d_actual_depth = store actual_depth 6, d_move_r = move_r, d_move_c = move_c\<rparr>"
    using assms(1) by (auto simp: heuristicNegamax_driver_def Let_def count_stones_take)
  show ?thesis
    using eq[OF assms(2)] eq[of 6] by (auto dest: run_search_private)
qed

theorem opening_forces_depth_six_witness:
  "count_stones env2 b2 \<le> 2 \<and> ((- 1 :: int) = - 1 \<or> (0 :: int) < - 1)
   \<and> heuristicNegamax_driver 7 env2 no_clock b2 0 1 (- 1) 1000 True (Some 0) (Some 7) (Some 8) =
       heuristicNegamax_driver 7 env2 no_clock b2 0 1 6 1000 True (Some 0) (Some 7) (Some 8)
   \<and> heuristicNegamax_driver 7 env2 no_clock b2 0 1 (- 1) 1000 True (Some 0) (Some 7) (Some 8) =
       Some (Inr \<lparr>gs_caller = [1, 0, 0, 2], gs_private = [1, 0, 0, 2], d_node_count = 3,
                  d_actual_depth = Some 6, d_move_r = Some 1, d_move_c = Some 0\<rparr>)"
proof -
  have cnt: "count_stones env2 b2 \<le> 2" by code_simp
  have d: "(- 1 :: int) = - 1 \<or> (0 :: int) < - 1" by simp
  have run: "heuristicNegamax_driver 7 env2 no_clock b2 0 1 6 1000 True (Some 0) (Some 7)
      (Some 8) =
       Some (Inr \<lparr>gs_caller = [1, 0, 0, 2], gs_private = [1, 0, 0, 2], d_node_count = 3,
                  d_actual_depth = Some 6, d_move_r = Some 1, d_move_c = Some 0\<rparr>)"
    by code_simp
  have "heuristicNegamax_driver 7 env2 no_clock b2 0 1 (- 1) 1000 True (Some 0) (Some 7)
      (Some 8) =
       heuristicNegamax_driver 7 env2 no_clock b2 0 1 6 1000 True (Some 0) (Some 7) (Some 8)"
    by (rule opening_forces_depth_six[OF cnt d, THEN conjunct2, THEN conjunct1])
  with cnt run show ?thesis by simp
qed




section \<open>The blocking override\<close>

lemma candidate_loop_env_threat: "candidate_loop 2 (env_threat 1) 1 2 2 True (INT_MAX div 2) 0
         (candidates (env_threat 1) b3 1 2 2 True (searchMovesOrdered (env_threat 1) b3 1)
            (searchMovesOrdered (env_threat 1) b3 (opponent_of 1)))
         \<lparr>l_gs = b3, l_node_count = 0 + 1,
          l_candidate_moves = candidates (env_threat 1) b3 1 2 2 True
            (searchMovesOrdered (env_threat 1) b3 1)
            (searchMovesOrdered (env_threat 1) b3 (opponent_of 1)),
          l_max_score = INT_MIN, l_alpha = INT_MIN div 2,
          l_move_r = Some 7, l_move_c = Some 8\<rparr>
       = Some (Inr (threat_loop_state 1))"
  by code_simp

text \<open>
  C4, as the code has it. At the root (\<open>depth = initial_depth\<close>) of a node whose
  opponent threatens (the opponent's top-ranked cell \<open>threat\<close> scores at least the
  threatening threshold), the first candidate of the loop is the first threat-blocking
  candidate: the cell of \<open>threat\<close>, re-scored for the moving player, and its
  \<open>actual_score\<close>, the \<open>blocking_score\<close>, is that score minus the decayed result of the
  search below it. Only a \<open>blocking_score\<close> equal to zero is replaced by 1; any other
  value, negative ones included, is kept and enters the divisor through its absolute
  value, so the divisor of the quotient is never zero. Where the override is considered
  the best score is negative, the \<open>blocking_score\<close> is at most the best score, hence
  negative too: it is kept and the divisor is its negation. When the test holds, the
  search returns the \<open>blocking_score\<close> as its score and writes the cell of \<open>threat\<close> to
  the move outputs, whatever the loop had written there.
\<close>

theorem blocking_override_at_root:
  assumes "sort_spec e" and "depth \<noteq> 0"
    and "2 \<le> length (searchMovesOrdered e gs player)"
    and "heuristic_val (searchMovesOrdered e gs player ! 0) < kRenjuAiEvalWinningScore e"
    and "threat = searchMovesOrdered e gs (opponent_of player) ! 0"
    and "kRenjuAiEvalThreateningScore e \<le> heuristic_val threat"
    and "cands = candidates e gs player depth depth True (searchMovesOrdered e gs player)
                   (searchMovesOrdered e gs (opponent_of player))"
    and "candidate_loop fuel e player depth depth enable_ab_pruning beta 0 cands
           \<lparr>l_gs = gs, l_node_count = nodes + 1, l_candidate_moves = cands,
            l_max_score = INT_MIN, l_alpha = alpha, l_move_r = move_r, l_move_c = move_c\<rparr>
         = Some (Inr st)"
    and "l_max_score st < 0"
    and "override_test e (l_max_score st) (actual_score (l_candidate_moves st ! 0))"
  shows "guard_b_score 0 = 1 \<and> (b \<noteq> 0 \<longrightarrow> guard_b_score b = b) \<and> override_divisor b \<noteq> 0
    \<and> (\<exists>r0.
          heuristicNegamax fuel e (setCell e gs (m_r threat) (m_c threat) (word_of_int player))
            (nodes + 1) (opponent_of player) depth (depth - 1) enable_ab_pruning (- beta)
            (- alpha + evalMove e gs (m_r threat) (m_c threat) player) None None = Some (Inr r0)
          \<and> actual_score (l_candidate_moves st ! 0) =
              evalMove e gs (m_r threat) (m_c threat) player - decay e (ret r0))
    \<and> actual_score (l_candidate_moves st ! 0) \<le> l_max_score st
    \<and> guard_b_score (actual_score (l_candidate_moves st ! 0)) =
        actual_score (l_candidate_moves st ! 0)
    \<and> override_divisor (actual_score (l_candidate_moves st ! 0)) =
        - actual_score (l_candidate_moves st ! 0)
    \<and> heuristicNegamax (Suc fuel) e gs nodes player depth depth enable_ab_pruning alpha beta
          move_r move_c =
        Some (Inr \<lparr>ret = actual_score (l_candidate_moves st ! 0), gs_after = gs,
                   node_count = l_node_count st,
                   move_r_after = store move_r (m_r threat),
                   move_c_after = store move_c (m_c threat)\<rparr>)"
proof -
  let ?mp = "searchMovesOrdered e gs player"
  let ?mo = "searchMovesOrdered e gs (opponent_of player)"
  let ?h0 = "evalMove e gs (m_r threat) (m_c threat) player"
  let ?bm = "threat\<lparr>heuristic_val := ?h0\<rparr>"
  let ?st0 = "\<lparr>l_gs = gs, l_node_count = nodes + 1, l_candidate_moves = cands,
            l_max_score = INT_MIN, l_alpha = alpha, l_move_r = move_r, l_move_c = move_c\<rparr>"
  let ?b = "actual_score (l_candidate_moves st ! 0)"
  have len: "length ?mo = length ?mp"
    by (simp add: searchMovesOrdered_length[OF assms(1)])
  with assms(3) have mo: "?mo \<noteq> []" by auto
  from candidates_blocking_first[OF mo, of e gs player depth depth ?mp] assms(5,7)
  obtain rest where cands: "cands = ?bm # rest" by auto
  have loop: "candidate_loop fuel e player depth depth enable_ab_pruning beta 0 (?bm # rest) ?st0
      = Some (Inr st)"
    using assms(8) cands by simp
  have "l_candidate_moves ?st0 = ?bm # rest" using cands by simp
  from candidate_loop_first[OF loop this] obtain r0 where
    call: "heuristicNegamax fuel e (setCell e gs (m_r threat) (m_c threat) (word_of_int player))
            (nodes + 1) (opponent_of player) depth (depth - 1) enable_ab_pruning (- beta)
            (- alpha + ?h0) None None = Some (Inr r0)"
    and first: "l_candidate_moves st ! 0 = ?bm\<lparr>actual_score := ?h0 - decay e (ret r0)\<rparr>"
    and le: "?h0 - decay e (ret r0) \<le> l_max_score st"
    by auto
  from first have b: "?b = ?h0 - decay e (ret r0)"
    and cell: "m_r (l_candidate_moves st ! 0) = m_r threat" "m_c (l_candidate_moves st ! 0) = m_c threat"
    by simp_all
  from b le assms(9) have neg: "?b < 0" and ble: "?b \<le> l_max_score st" by simp_all
  from candidate_loop_moves[OF assms(8)]
  have mv: "store (l_move_r st) (m_r threat) = store move_r (m_r threat)"
    "store (l_move_c st) (m_c threat) = store move_c (m_c threat)" by simp_all
  have gs: "l_gs st = gs"
    using candidate_loop_restores[OF heuristicNegamax_restores[OF assms(1)] assms(8)]
      candidates_empty_cell[OF assms(1)] assms(7)
    by simp
  have fin: "finish e depth depth True st =
      \<lparr>ret = ?b, gs_after = gs, node_count = l_node_count st,
       move_r_after = store move_r (m_r threat), move_c_after = store move_c (m_c threat)\<rparr>"
    using assms(9,10) cell mv gs by (simp add: finish_def blocking_override_def Let_def)
  have run: "heuristicNegamax (Suc fuel) e gs nodes player depth depth enable_ab_pruning
      alpha beta move_r move_c = Some (Inr (finish e depth depth True st))"
  proof -
    from assms(3) have mp: "?mp \<noteq> []" "length ?mp \<noteq> Suc 0" by auto
    from assms(4) have nw: "\<not> kRenjuAiEvalWinningScore e \<le> heuristic_val (?mp ! 0)" by simp
    from assms(5,6) have bl: "kRenjuAiEvalThreateningScore e \<le> heuristic_val (?mo ! 0)" by simp
    from assms(7,8) have lp: "candidate_loop fuel e player depth depth enable_ab_pruning beta 0
        (candidates e gs player depth depth True ?mp ?mo)
        \<lparr>l_gs = gs, l_node_count = nodes + 1,
         l_candidate_moves = candidates e gs player depth depth True ?mp ?mo,
         l_max_score = INT_MIN, l_alpha = alpha, l_move_r = move_r, l_move_c = move_c\<rparr>
        = Some (Inr st)" by simp
    show ?thesis
      using assms(2) mp nw bl mo lp by (simp add: Let_def)
  qed
  show ?thesis
    using call b ble neg fin run
    by (auto simp: guard_b_score_def override_divisor_def)
qed

theorem blocking_override_at_root_witness:
  "sort_spec (env_threat 1) \<and> (2 :: int) \<noteq> 0
   \<and> 2 \<le> length (searchMovesOrdered (env_threat 1) b3 1)
   \<and> heuristic_val (searchMovesOrdered (env_threat 1) b3 1 ! 0)
       < kRenjuAiEvalWinningScore (env_threat 1)
   \<and> searchMovesOrdered (env_threat 1) b3 (opponent_of 1) ! 0 =
       \<lparr>m_r = 0, m_c = 0, heuristic_val = 40, actual_score = 0\<rparr>
   \<and> kRenjuAiEvalThreateningScore (env_threat 1) \<le> 40
   \<and> l_max_score (threat_loop_state 1) = - 30
   \<and> actual_score (l_candidate_moves (threat_loop_state 1) ! 0) = - 37
   \<and> override_test (env_threat 1) (- 30) (- 37)
   \<and> override_divisor (- 37) = 37
   \<and> heuristicNegamax 3 (env_threat 1) b3 0 1 2 2 True (INT_MIN div 2) (INT_MAX div 2)
         (Some 7) (Some 8) =
       Some (Inr \<lparr>ret = - 37, gs_after = b3, node_count = 11,
                  move_r_after = Some 0, move_c_after = Some 0\<rparr>)"
proof -
  have mp: "searchMovesOrdered (env_threat 1) b3 1 =
     [\<lparr>m_r = 2, m_c = 2, heuristic_val = 8, actual_score = 0\<rparr>,
      \<lparr>m_r = 2, m_c = 1, heuristic_val = 7, actual_score = 0\<rparr>,
      \<lparr>m_r = 2, m_c = 0, heuristic_val = 6, actual_score = 0\<rparr>,
      \<lparr>m_r = 1, m_c = 2, heuristic_val = 5, actual_score = 0\<rparr>,
      \<lparr>m_r = 1, m_c = 0, heuristic_val = 3, actual_score = 0\<rparr>,
      \<lparr>m_r = 0, m_c = 2, heuristic_val = 2, actual_score = 0\<rparr>,
      \<lparr>m_r = 0, m_c = 1, heuristic_val = 1, actual_score = 0\<rparr>,
      \<lparr>m_r = 0, m_c = 0, heuristic_val = 0, actual_score = 0\<rparr>]"
    by code_simp
  have h3: "2 \<le> length (searchMovesOrdered (env_threat 1) b3 1)"
    unfolding mp by simp
  have h4: "heuristic_val (searchMovesOrdered (env_threat 1) b3 1 ! 0)
       < kRenjuAiEvalWinningScore (env_threat 1)"
    unfolding mp by (simp add: env_threat_def env3_def)
  have h5: "searchMovesOrdered (env_threat 1) b3 (opponent_of 1) ! 0 =
       \<lparr>m_r = 0, m_c = 0, heuristic_val = 40, actual_score = 0\<rparr>"
    by code_simp
  have h6: "kRenjuAiEvalThreateningScore (env_threat 1)
       \<le> heuristic_val \<lparr>m_r = 0, m_c = 0, heuristic_val = 40, actual_score = 0\<rparr>"
    by (simp add: env_threat_def env3_def)
  have h9: "l_max_score (threat_loop_state 1) < 0"
    by (simp add: threat_loop_state_def)
  have h10: "override_test (env_threat 1) (l_max_score (threat_loop_state 1))
       (actual_score (l_candidate_moves (threat_loop_state 1) ! 0))"
    by (simp add: threat_loop_state_def override_test_def guard_b_score_def
        override_divisor_def env_threat_def env3_def)
  have neq: "(2 :: int) \<noteq> 0" by simp
  from blocking_override_at_root[OF sort_spec_env_threat neq h3 h4 h5[symmetric] h6 refl candidate_loop_env_threat h9 h10,
      of "- 37"]
    sort_spec_env_threat h3 h4 h5 h6 h10
  show ?thesis
    by (simp add: threat_loop_state_def store_def)
qed

text \<open>
  A negative \<open>blocking_score\<close> is not treated as 1. Under \<open>env_threat 2\<close> the root of
  \<open>b3\<close> is blocking-relevant, the best score is \<open>-22\<close> (cell (2, 2)) and the
  \<open>blocking_score\<close> is \<open>-37\<close>: the code divides 15 by 37, the test fails and the search
  returns the best move; with the \<open>blocking_score\<close> treated as 1 the test would hold and
  the blocking cell (0, 0) would be returned.
\<close>

theorem blocking_override_at_root_counterexample:
  "kRenjuAiEvalThreateningScore (env_threat 2)
     \<le> heuristic_val (searchMovesOrdered (env_threat 2) b3 (opponent_of 1) ! 0)
   \<and> candidate_loop 2 (env_threat 2) 1 2 2 True (INT_MAX div 2) 0
         (candidates (env_threat 2) b3 1 2 2 True (searchMovesOrdered (env_threat 2) b3 1)
            (searchMovesOrdered (env_threat 2) b3 (opponent_of 1)))
         \<lparr>l_gs = b3, l_node_count = 0 + 1,
          l_candidate_moves = candidates (env_threat 2) b3 1 2 2 True
            (searchMovesOrdered (env_threat 2) b3 1)
            (searchMovesOrdered (env_threat 2) b3 (opponent_of 1)),
          l_max_score = INT_MIN, l_alpha = INT_MIN div 2,
          l_move_r = Some 7, l_move_c = Some 8\<rparr>
       = Some (Inr (threat_loop_state 2))
   \<and> l_max_score (threat_loop_state 2) = - 22
   \<and> l_candidate_moves (threat_loop_state 2) ! 0 =
       \<lparr>m_r = 0, m_c = 0, heuristic_val = 0, actual_score = - 37\<rparr>
   \<and> guard_b_score (- 37) = - 37 \<and> spec_guard_b_score (- 37) = 1
   \<and> quotientBelow (env_threat 2) (- 22 - spec_guard_b_score (- 37))
         \<bar>spec_guard_b_score (- 37)\<bar>
   \<and> \<not> override_test (env_threat 2) (- 22) (- 37)
   \<and> heuristicNegamax 3 (env_threat 2) b3 0 1 2 2 True (INT_MIN div 2) (INT_MAX div 2)
         (Some 7) (Some 8) =
       Some (Inr \<lparr>ret = - 22, gs_after = b3, node_count = 11,
                  move_r_after = Some 2, move_c_after = Some 2\<rparr>)"
proof -
  have a: "kRenjuAiEvalThreateningScore (env_threat 2)
     \<le> heuristic_val (searchMovesOrdered (env_threat 2) b3 (opponent_of 1) ! 0)"
    by code_simp
  have b: "candidate_loop 2 (env_threat 2) 1 2 2 True (INT_MAX div 2) 0
         (candidates (env_threat 2) b3 1 2 2 True (searchMovesOrdered (env_threat 2) b3 1)
            (searchMovesOrdered (env_threat 2) b3 (opponent_of 1)))
         \<lparr>l_gs = b3, l_node_count = 0 + 1,
          l_candidate_moves = candidates (env_threat 2) b3 1 2 2 True
            (searchMovesOrdered (env_threat 2) b3 1)
            (searchMovesOrdered (env_threat 2) b3 (opponent_of 1)),
          l_max_score = INT_MIN, l_alpha = INT_MIN div 2,
          l_move_r = Some 7, l_move_c = Some 8\<rparr>
       = Some (Inr (threat_loop_state 2))"
    by code_simp
  have c: "heuristicNegamax 3 (env_threat 2) b3 0 1 2 2 True (INT_MIN div 2) (INT_MAX div 2)
         (Some 7) (Some 8) =
       Some (Inr \<lparr>ret = - 22, gs_after = b3, node_count = 11,
                  move_r_after = Some 2, move_c_after = Some 2\<rparr>)"
    by code_simp
  have d: "l_max_score (threat_loop_state 2) = - 22"
    "l_candidate_moves (threat_loop_state 2) ! 0 =
       \<lparr>m_r = 0, m_c = 0, heuristic_val = 0, actual_score = - 37\<rparr>"
    "guard_b_score (- 37) = - 37" "spec_guard_b_score (- 37) = 1"
    "quotientBelow (env_threat 2) (- 22 - spec_guard_b_score (- 37))
         \<bar>spec_guard_b_score (- 37)\<bar>"
    "\<not> override_test (env_threat 2) (- 22) (- 37)"
    by (simp_all add: threat_loop_state_def guard_b_score_def spec_guard_b_score_def
        override_test_def override_divisor_def env_threat_def env3_def)
  show ?thesis by (intro conjI a b c d)
qed

section \<open>The candidate generator: what it returns\<close>

lemma set_cells: "set (cells r0 r1 c0 c1) = {(r, c). r0 \<le> r \<and> r \<le> r1 \<and> c0 \<le> c \<and> c \<le> c1}"
  by (auto simp: cells_def)

lemma concat_map_product:
  "concat (map (\<lambda>r. map (\<lambda>c. (r, c)) ys) xs) = List.product xs ys"
  by (induction xs) simp_all

lemma distinct_cells: "distinct (cells r0 r1 c0 c1)"
  unfolding cells_def concat_map_product
  by (rule distinct_product) simp_all

lemma extent_fold:
  "foldl (extent_step e gs) (a, b, c, d) cs =
     (fold min (map fst (filter (occ e gs) cs)) a,
      fold min (map snd (filter (occ e gs) cs)) b,
      fold max (map fst (filter (occ e gs) cs)) c,
      fold max (map snd (filter (occ e gs) cs)) d)"
proof (induction cs arbitrary: a b c d)
  case Nil
  then show ?case by simp
next
  case (Cons rc cs)
  obtain r c' where rc: "rc = (r, c')" by (cases rc)
  show ?case
    unfolding rc by (simp add: Cons.IH occ_def min_def max_def)
qed

lemma fold_min_Min: "fold min xs (a::int) = Min (insert a (set xs))"
  by (metis Min.set_eq_fold list.simps(15))

lemma fold_max_Max: "fold max xs (a::int) = Max (insert a (set xs))"
  by (metis Max.set_eq_fold list.simps(15))

lemma occupied_filter:
  "set (filter (occ e gs) (cells 0 (g_board_size e - 1) 0 (g_board_size e - 1))) = occupied e gs"
  by (auto simp: set_cells occ_def occupied_def)

lemma finite_occupied: "finite (occupied e gs)"
  by (metis occupied_filter List.finite_set)

lemma extent_Min_Max:
  assumes "occupied e gs \<noteq> {}" and "g_board_size e \<le> INT_MAX"
  shows "extent e gs =
     (Min (fst ` occupied e gs), Min (snd ` occupied e gs),
      Max (fst ` occupied e gs), Max (snd ` occupied e gs))"
proof -
  let ?R = "fst ` occupied e gs" and ?C = "snd ` occupied e gs"
  have fin: "finite ?R" "finite ?C" using finite_occupied by auto
  have ne: "?R \<noteq> {}" "?C \<noteq> {}" using assms(1) by auto
  have rb: "\<And>r. r \<in> ?R \<Longrightarrow> 0 \<le> r \<and> r < INT_MAX"
    using assms(2) by (auto simp: occupied_def)
  have cb: "\<And>c. c \<in> ?C \<Longrightarrow> 0 \<le> c \<and> c < INT_MAX"
    using assms(2) by (auto simp: occupied_def)
  have "Min ?R \<in> ?R" "Min ?C \<in> ?C" "Max ?R \<in> ?R" "Max ?C \<in> ?C"
    using fin ne by simp_all
  with rb cb have bnd: "Min ?R < INT_MAX" "Min ?C < INT_MAX" "INT_MIN < Max ?R" "INT_MIN < Max ?C"
    by (force simp: INT_MIN_def)+
  have 1: "Min (insert INT_MAX ?R) = Min ?R"
    using Min.insert[OF fin(1) ne(1), of INT_MAX] bnd(1) by (metis min.absorb2 less_imp_le)
  have 2: "Min (insert INT_MAX ?C) = Min ?C"
    using Min.insert[OF fin(2) ne(2), of INT_MAX] bnd(2) by (metis min.absorb2 less_imp_le)
  have 3: "Max (insert INT_MIN ?R) = Max ?R"
    using Max.insert[OF fin(1) ne(1), of INT_MIN] bnd(3) by (metis max.absorb2 less_imp_le)
  have 4: "Max (insert INT_MIN ?C) = Max ?C"
    using Max.insert[OF fin(2) ne(2), of INT_MIN] bnd(4) by (metis max.absorb2 less_imp_le)
  show ?thesis
    unfolding extent_def extent_fold fold_min_Min fold_max_Max
    by (simp only: set_map occupied_filter 1 2 3 4)
qed

lemma scan_cells_box:
  assumes "occupied e gs \<noteq> {}" and "g_board_size e \<le> INT_MAX"
  shows "set (scan_cells e (clamp_extent e (extent e gs))) = expanded_box e gs"
  unfolding extent_Min_Max[OF assms]
  by (auto simp: set_cells expanded_box_def)

lemma distinct_scan_cells: "distinct (scan_cells e x)"
  by (cases x) (simp add: distinct_cells)

text \<open>
  C6. On a board with at least one occupied cell, \<open>searchMovesOrdered\<close> returns exactly
  the cells that are empty, not remote and inside the bounding box of the occupied cells
  widened by 2 on every side and cut to the board, each once and each with the score
  \<open>evalMove\<close> gives it for the player; the list is in descending order of
  \<open>heuristic_val\<close>.
\<close>

theorem searchMovesOrdered_spec:
  assumes "sort_spec e" and "occupied e gs \<noteq> {}" and "g_board_size e \<le> INT_MAX"
  shows "set (map cell_of (searchMovesOrdered e gs player)) =
           {rc \<in> expanded_box e gs.
              gs ! cell_index e (fst rc) (snd rc) = 0 \<and> \<not> remoteCell e gs (fst rc) (snd rc)}
         \<and> distinct (map cell_of (searchMovesOrdered e gs player))
         \<and> (\<forall>m \<in> set (searchMovesOrdered e gs player).
               heuristic_val m = evalMove e gs (m_r m) (m_c m) player)
         \<and> sorted_wrt (\<lambda>a b. heuristic_val b \<le> heuristic_val a) (searchMovesOrdered e gs player)
         \<and> expanded_box e gs \<subseteq>
             {(r, c). 0 \<le> r \<and> r < g_board_size e \<and> 0 \<le> c \<and> c < g_board_size e}"
proof (intro conjI)
  let ?scan = "scan_cells e (clamp_extent e (extent e gs))"
  have ms: "mset (map cell_of (searchMovesOrdered e gs player)) =
            mset (filter (is_candidate e gs) ?scan)"
    by (rule searchMovesOrdered_cells[OF assms(1)])
  from ms have "set (map cell_of (searchMovesOrdered e gs player)) =
      set (filter (is_candidate e gs) ?scan)"
    by (rule mset_eq_setD)
  then show "set (map cell_of (searchMovesOrdered e gs player)) =
           {rc \<in> expanded_box e gs.
              gs ! cell_index e (fst rc) (snd rc) = 0 \<and> \<not> remoteCell e gs (fst rc) (snd rc)}"
    by (auto simp: scan_cells_box[OF assms(2,3)] is_candidate_def)
  have "distinct (filter (is_candidate e gs) ?scan)"
    by (simp add: distinct_scan_cells)
  with ms show "distinct (map cell_of (searchMovesOrdered e gs player))"
    by (metis mset_eq_imp_distinct_iff)
  show "\<forall>m \<in> set (searchMovesOrdered e gs player).
          heuristic_val m = evalMove e gs (m_r m) (m_c m) player"
    by (auto simp: searchMovesOrdered_set[OF assms(1)] make_move_def)
  have "sorted_wrt move_le (searchMovesOrdered e gs player)"
    using assms(1) by (simp add: sort_spec_def searchMovesOrdered_def)
  then show "sorted_wrt (\<lambda>a b. heuristic_val b \<le> heuristic_val a)
      (searchMovesOrdered e gs player)"
    by (simp add: move_le_def[abs_def])
  show "expanded_box e gs \<subseteq>
             {(r, c). 0 \<le> r \<and> r < g_board_size e \<and> 0 \<le> c \<and> c < g_board_size e}"
    by (auto simp: expanded_box_def)
qed

lemma occupied_b3: "(1, 1) \<in> occupied env3 b3"
  by (simp add: occupied_def env3_def b3_def cell_index_def)

theorem searchMovesOrdered_spec_witness:
  "sort_spec env3 \<and> occupied env3 b3 \<noteq> {} \<and> g_board_size env3 \<le> INT_MAX
   \<and> map cell_of (searchMovesOrdered env3 b3 1) =
       [(2, 2), (2, 1), (2, 0), (1, 2), (1, 0), (0, 2), (0, 1), (0, 0)]
   \<and> set [(2, 2), (2, 1), (2, 0), (1, 2), (1, 0), (0, 2), (0, 1), (0 :: int, 0 :: int)] =
       {rc \<in> expanded_box env3 b3.
          b3 ! cell_index env3 (fst rc) (snd rc) = 0 \<and> \<not> remoteCell env3 b3 (fst rc) (snd rc)}
   \<and> sorted_wrt (\<lambda>a b. heuristic_val b \<le> heuristic_val a) (searchMovesOrdered env3 b3 1)"
proof -
  have ne: "occupied env3 b3 \<noteq> {}" using occupied_b3 by blast
  have sz: "g_board_size env3 \<le> INT_MAX" by (simp add: env3_def INT_MAX_def)
  have cs: "map cell_of (searchMovesOrdered env3 b3 1) =
       [(2, 2), (2, 1), (2, 0), (1, 2), (1, 0), (0, 2), (0, 1), (0, 0)]"
    by code_simp
  from searchMovesOrdered_spec[OF sort_spec_env3 ne sz, of 1] cs sort_spec_env3 ne sz
  show ?thesis by (simp only:) simp
qed

section \<open>The exhaustive negamax: what it computes\<close>

lemma nm_fold_Nil: "nm_fold f gs st [] = st"
  by (simp add: nm_fold_def)

lemma nm_fold_Cons:
  "nm_fold f gs st (rc # xs) = nm_fold f gs (nm_update (f rc) (fst rc) (snd rc) st gs) xs"
  by (simp add: nm_fold_def)

lemma nm_fold_snoc:
  "nm_fold f gs st (xs @ [rc]) = nm_update (f rc) (fst rc) (snd rc) (nm_fold f gs st xs) gs"
  by (simp add: nm_fold_def)

lemma nm_fold_result:
  assumes "nm_gs st0 = gs"
  shows "nm_gs (nm_fold f gs st0 xs) = gs
    \<and> nm_score (nm_fold f gs st0 xs) = Max (insert (nm_score st0) (f ` set xs))
    \<and> ((nm_score (nm_fold f gs st0 xs) = nm_score st0
          \<and> nm_move_r (nm_fold f gs st0 xs) = nm_move_r st0
          \<and> nm_move_c (nm_fold f gs st0 xs) = nm_move_c st0)
        \<or> (\<exists>pre rc post. xs = pre @ rc # post
              \<and> f rc = nm_score (nm_fold f gs st0 xs)
              \<and> nm_score st0 < nm_score (nm_fold f gs st0 xs)
              \<and> (\<forall>x \<in> set pre. f x < nm_score (nm_fold f gs st0 xs))
              \<and> (\<forall>x \<in> set post. f x \<le> nm_score (nm_fold f gs st0 xs))
              \<and> nm_move_r (nm_fold f gs st0 xs) = store (nm_move_r st0) (fst rc)
              \<and> nm_move_c (nm_fold f gs st0 xs) = store (nm_move_c st0) (snd rc)))"
proof (induction xs rule: rev_induct)
  case Nil
  then show ?case using assms by (simp add: nm_fold_Nil)
next
  case (snoc x xs)
  let ?st = "nm_fold f gs st0 xs"
  let ?st' = "nm_fold f gs st0 (xs @ [x])"
  have st': "?st' = nm_update (f x) (fst x) (snd x) ?st gs" by (rule nm_fold_snoc)
  from snoc.IH have gs: "nm_gs ?st = gs"
    and mx: "nm_score ?st = Max (insert (nm_score st0) (f ` set xs))" by simp_all
  have fin: "finite (insert (nm_score st0) (f ` set xs))" by simp
  have ub: "\<And>y. y \<in> set xs \<Longrightarrow> f y \<le> nm_score ?st"
    unfolding mx by (rule Max_ge[OF fin]) simp
  have lb: "nm_score st0 \<le> nm_score ?st"
    unfolding mx by (rule Max_ge[OF fin]) simp
  have ins: "insert (nm_score st0) (f ` set (xs @ [x])) =
      insert (f x) (insert (nm_score st0) (f ` set xs))" by auto
  have "Max (insert (f x) (insert (nm_score st0) (f ` set xs))) =
      max (f x) (Max (insert (nm_score st0) (f ` set xs)))"
    by (rule Max_insert) simp_all
  then have mx': "Max (insert (nm_score st0) (f ` set (xs @ [x]))) = max (f x) (nm_score ?st)"
    unfolding mx ins .
  show ?case
  proof (cases "f x > nm_score ?st")
    case True
    then have upd: "?st' = \<lparr>nm_score = f x, nm_gs = gs,
        nm_move_r = store (nm_move_r ?st) (fst x), nm_move_c = store (nm_move_c ?st) (snd x)\<rparr>"
      unfolding st' by (simp add: nm_update_def)
    from snoc.IH have mv: "nm_move_r ?st = nm_move_r st0 \<or> (\<exists>a. nm_move_r ?st = store (nm_move_r st0) a)"
      "nm_move_c ?st = nm_move_c st0 \<or> (\<exists>a. nm_move_c ?st = store (nm_move_c st0) a)"
      by blast+
    then have mv': "store (nm_move_r ?st) (fst x) = store (nm_move_r st0) (fst x)"
      "store (nm_move_c ?st) (snd x) = store (nm_move_c st0) (snd x)"
      by (auto simp: store_store)
    have sc: "nm_score ?st' = f x" "nm_gs ?st' = gs"
      "nm_move_r ?st' = store (nm_move_r st0) (fst x)"
      "nm_move_c ?st' = store (nm_move_c st0) (snd x)"
      using upd mv' by simp_all
    have "xs @ [x] = xs @ x # []
              \<and> f x = nm_score ?st'
              \<and> nm_score st0 < nm_score ?st'
              \<and> (\<forall>y \<in> set xs. f y < nm_score ?st') \<and> (\<forall>y \<in> set []. f y \<le> nm_score ?st')
              \<and> nm_move_r ?st' = store (nm_move_r st0) (fst x)
              \<and> nm_move_c ?st' = store (nm_move_c st0) (snd x)"
      unfolding sc using True ub lb by force
    then have "\<exists>pre rc post. xs @ [x] = pre @ rc # post
              \<and> f rc = nm_score ?st'
              \<and> nm_score st0 < nm_score ?st'
              \<and> (\<forall>y \<in> set pre. f y < nm_score ?st') \<and> (\<forall>y \<in> set post. f y \<le> nm_score ?st')
              \<and> nm_move_r ?st' = store (nm_move_r st0) (fst rc)
              \<and> nm_move_c ?st' = store (nm_move_c st0) (snd rc)"
      by blast
    moreover have "nm_score ?st' = Max (insert (nm_score st0) (f ` set (xs @ [x])))"
      unfolding mx' sc using True by simp
    ultimately show ?thesis using sc(2) by blast
  next
    case False
    then have upd: "?st' = ?st\<lparr>nm_gs := gs\<rparr>"
      unfolding st' by (simp add: nm_update_def)
    then have same: "nm_score ?st' = nm_score ?st" "nm_move_r ?st' = nm_move_r ?st"
      "nm_move_c ?st' = nm_move_c ?st" "nm_gs ?st' = gs" by simp_all
    have sc: "nm_score ?st' = Max (insert (nm_score st0) (f ` set (xs @ [x])))"
      unfolding mx' same using False by simp
    from snoc.IH consider
      (keep) "nm_score ?st = nm_score st0" "nm_move_r ?st = nm_move_r st0"
        "nm_move_c ?st = nm_move_c st0"
      | (found) pre rc post where "xs = pre @ rc # post" "f rc = nm_score ?st"
        "nm_score st0 < nm_score ?st" "\<forall>y \<in> set pre. f y < nm_score ?st"
        "\<forall>y \<in> set post. f y \<le> nm_score ?st"
        "nm_move_r ?st = store (nm_move_r st0) (fst rc)"
        "nm_move_c ?st = store (nm_move_c st0) (snd rc)"
      by blast
    then show ?thesis
    proof cases
      case keep
      with same sc show ?thesis by simp
    next
      case found
      have "xs @ [x] = pre @ rc # (post @ [x])
              \<and> f rc = nm_score ?st'
              \<and> nm_score st0 < nm_score ?st'
              \<and> (\<forall>y \<in> set pre. f y < nm_score ?st')
              \<and> (\<forall>y \<in> set (post @ [x]). f y \<le> nm_score ?st')
              \<and> nm_move_r ?st' = store (nm_move_r st0) (fst rc)
              \<and> nm_move_c ?st' = store (nm_move_c st0) (snd rc)"
        unfolding same using found False by force
      then have "\<exists>pre rc post. xs @ [x] = pre @ rc # post
              \<and> f rc = nm_score ?st'
              \<and> nm_score st0 < nm_score ?st'
              \<and> (\<forall>y \<in> set pre. f y < nm_score ?st') \<and> (\<forall>y \<in> set post. f y \<le> nm_score ?st')
              \<and> nm_move_r ?st' = store (nm_move_r st0) (fst rc)
              \<and> nm_move_c ?st' = store (nm_move_c st0) (snd rc)"
        by blast
      with same(4) sc show ?thesis by blast
    qed
  qed
qed

lemma nm_update_gs: "nm_gs (nm_update s r c st gs) = gs"
  by (simp add: nm_update_def)

lemma negamax_loop_fold:
  assumes child: "\<And>gs' res. negamax fuel e gs' (opponent_of player) (depth - 1) None None
                     = Some (Inr res) \<Longrightarrow> nm_gs res = gs' \<and> nm_score res = V gs'"
  shows "negamax_loop fuel e player depth cs st = Some (Inr st') \<Longrightarrow> nm_gs st = gs \<Longrightarrow>
         st' = nm_fold (\<lambda>rc. - V (setCell e gs (fst rc) (snd rc) (word_of_int player))) gs st
                 (filter (nm_candidate e gs) cs)"
proof (induction cs arbitrary: st)
  case Nil
  then show ?case by (simp add: nm_fold_Nil)
next
  case (Cons rc cs)
  show ?case
  proof (cases "nm_candidate e gs rc")
    case False
    with Cons.prems have "negamax_loop fuel e player depth cs st = Some (Inr st')"
      by (auto simp: nm_candidate_def split: if_splits)
    from Cons.IH[OF this Cons.prems(2)] False show ?thesis by simp
  next
    case True
    let ?gs1 = "setCell e gs (fst rc) (snd rc) (word_of_int player)"
    from True Cons.prems obtain res where
      call: "negamax fuel e ?gs1 (opponent_of player) (depth - 1) None None = Some (Inr res)"
      and ne: "nm_score res \<noteq> INT_MIN"
      and rest: "negamax_loop fuel e player depth cs
                   (nm_update (- nm_score res) (fst rc) (snd rc) st
                      (setCell e (nm_gs res) (fst rc) (snd rc) 0)) = Some (Inr st')"
      by (auto simp: nm_candidate_def split: if_splits option.splits sum.splits)
    from child[OF call] have r: "nm_gs res = ?gs1" "nm_score res = V ?gs1" by simp_all
    from True have "gs ! cell_index e (fst rc) (snd rc) = 0"
      by (simp add: nm_candidate_def getCell_def)
    then have restored: "setCell e ?gs1 (fst rc) (snd rc) 0 = gs"
      by (rule setCell_restore)
    let ?st1 = "nm_update (- V ?gs1) (fst rc) (snd rc) st gs"
    from rest have "negamax_loop fuel e player depth cs ?st1 = Some (Inr st')"
      unfolding r restored .
    moreover have "nm_gs ?st1 = gs" by (rule nm_update_gs)
    ultimately have "st' = nm_fold (\<lambda>rc. - V (setCell e gs (fst rc) (snd rc)
        (word_of_int player))) gs ?st1 (filter (nm_candidate e gs) cs)"
      by (rule Cons.IH)
    with True show ?thesis by (simp add: nm_fold_Cons)
  qed
qed

lemma nm_candidates_alt:
  "nm_candidates e gs =
     filter (nm_candidate e gs) (cells 0 (g_board_size e - 1) 0 (g_board_size e - 1))"
  by (simp add: nm_candidates_def nm_candidate_def[abs_def])

lemma negamax_refines:
  "negamax fuel e gs player depth move_r move_c = Some (Inr res) \<Longrightarrow> 0 \<le> depth \<Longrightarrow>
   nm_gs res = gs
   \<and> nm_score res = negamax_value e gs player (nat depth)
   \<and> (depth = 0 \<longrightarrow> nm_move_r res = move_r \<and> nm_move_c res = move_c)
   \<and> (0 < depth \<longrightarrow>
        (nm_score res = INT_MIN \<and> nm_move_r res = move_r \<and> nm_move_c res = move_c)
        \<or> (\<exists>pre rc post. nm_candidates e gs = pre @ rc # post
              \<and> child_value e gs player (nat (depth - 1)) rc = nm_score res
              \<and> INT_MIN < nm_score res
              \<and> (\<forall>x \<in> set pre. child_value e gs player (nat (depth - 1)) x < nm_score res)
              \<and> (\<forall>x \<in> set post. child_value e gs player (nat (depth - 1)) x \<le> nm_score res)
              \<and> nm_move_r res = store move_r (fst rc)
              \<and> nm_move_c res = store move_c (snd rc)))"
proof (induction fuel arbitrary: gs player depth move_r move_c res)
  case 0
  then show ?case by simp
next
  case (Suc fuel)
  show ?case
  proof (cases "depth = 0")
    case True
    with Suc.prems show ?thesis by auto
  next
    case False
    with Suc.prems have pos: "0 < depth" "0 \<le> depth - 1" by simp_all
    let ?d = "nat (depth - 1)"
    have nd: "nat depth = Suc ?d" using pos by simp
    let ?V = "\<lambda>gs'. negamax_value e gs' (opponent_of player) ?d"
    let ?f = "child_value e gs player ?d"
    let ?st0 = "\<lparr>nm_score = INT_MIN, nm_gs = gs, nm_move_r = move_r, nm_move_c = move_c\<rparr>"
    have child: "\<And>gs' res. negamax fuel e gs' (opponent_of player) (depth - 1) None None
                     = Some (Inr res) \<Longrightarrow> nm_gs res = gs' \<and> nm_score res = ?V gs'"
      using Suc.IH[OF _ pos(2)] by blast
    from False Suc.prems have
      "negamax_loop fuel e player depth (cells 0 (g_board_size e - 1) 0 (g_board_size e - 1)) ?st0
         = Some (Inr res)" by simp
    from negamax_loop_fold[where V = ?V and gs = gs, OF child this]
    have res: "res = nm_fold ?f gs ?st0 (nm_candidates e gs)"
      by (simp add: nm_candidates_alt child_value_def[abs_def])
    have val: "negamax_value e gs player (nat depth) =
        Max (insert INT_MIN (?f ` set (nm_candidates e gs)))"
      unfolding nd by (simp add: child_value_def[abs_def])
    have "nm_gs ?st0 = gs" "nm_score ?st0 = INT_MIN" "nm_move_r ?st0 = move_r"
      "nm_move_c ?st0 = move_c" by simp_all
    from nm_fold_result[of ?st0 gs ?f "nm_candidates e gs", OF this(1), folded res,
        unfolded this(2,3,4)] False
    show ?thesis unfolding val by blast
  qed
qed

lemma negamax_loop_returns:
  assumes IH: "\<And>gs player. negamax fuel e gs player (depth - 1) None None \<noteq> None"
  shows "negamax_loop fuel e player depth cs st \<noteq> None"
proof (induction cs arbitrary: st)
  case Nil
  then show ?case by simp
next
  case (Cons rc cs)
  have rest: "\<And>st. negamax_loop fuel e player depth cs st \<noteq> None" by (rule Cons.IH)
  let ?call = "negamax fuel e (setCell e (nm_gs st) (fst rc) (snd rc) (word_of_int player))
      (opponent_of player) (depth - 1) None None"
  show ?case
  proof (cases ?call)
    case None
    with IH show ?thesis by blast
  next
    case (Some r)
    then show ?thesis using rest by (cases r) simp_all
  qed
qed

lemma negamax_returns:
  "0 \<le> depth \<Longrightarrow> nat depth < fuel \<Longrightarrow>
   negamax fuel e gs player depth move_r move_c \<noteq> None"
proof (induction fuel arbitrary: gs player depth move_r move_c)
  case 0
  then show ?case by simp
next
  case (Suc fuel)
  show ?case
  proof (cases "depth = 0")
    case True
    then show ?thesis by simp
  next
    case False
    with Suc.prems have "0 \<le> depth - 1" "nat (depth - 1) < fuel" by auto
    then have "\<And>gs player. negamax fuel e gs player (depth - 1) None None \<noteq> None"
      by (rule Suc.IH)
    then have loop: "\<And>player cs st. negamax_loop fuel e player depth cs st \<noteq> None"
      by (rule negamax_loop_returns)
    show ?thesis using False by (simp add: loop)
  qed
qed

text \<open>
  C7. Whenever \<open>negamax\<close> returns without the overflow of line 286, it does what the
  claim says (\<open>negamax_refines\<close>): the evaluation at depth 0, otherwise the maximum of
  the negated values one level down over the empty non-remote cells, with the first
  maximising cell in the outputs and the board restored. The claim is for every board,
  though, and on a board with a single empty cell the search of depth 2 places the last
  stone, the call one level down finds no cell and returns \<^verbatim>\<open>INT_MIN\<close>, and line 286
  negates it: the search of the claim, whose value there would be the evaluation of the
  full board, is not what the code computes.
\<close>

theorem negamax_overflow_on_last_cell:
  "nm_candidates env3 b3_one = [(1, 1)]
   \<and> negamax 2 env3 (setCell env3 b3_one 1 1 1) 2 1 None None =
       Some (Inr \<lparr>nm_score = INT_MIN, nm_gs = setCell env3 b3_one 1 1 1,
                  nm_move_r = None, nm_move_c = None\<rparr>)
   \<and> negamax 3 env3 b3_one 1 2 (Some 7) (Some 8) = Some (Inl SignedOverflow)"
  by (intro conjI; code_simp)

end
